theory Spec2Isabelle
  imports Complex_Main "HOL-Library.AList" "HOL-Library.Sublist" "HOL-Library.Log_Nat"
begin

section \<open>Data model\<close>

text \<open>
  The two extraction scripts (\<^verbatim>\<open>extract-plugin-stats.js\<close>, the strict variant, and the
  script with the hard-wired plugin name, the simple variant) walk the commits that
  touched the statistics file, newest first, and read the file at each commit. The chart
  script (\<^verbatim>\<open>generate-download-chart.js\<close>) smooths the growth rates.

  JSON scalars are values of \<open>jval\<close>; \<open>JUndefined\<close> is what reading a missing property
  gives. A JavaScript object with string keys and scalar values is the list of its own
  properties in the order of their creation (\<open>jobject\<close>); for an object that
  \<^verbatim>\<open>JSON.parse\<close> made this is the order of the text. The numbers of the statistics
  file are integers: it records download counts.
\<close>

datatype jval = JUndefined | JNull | JBool bool | JNum int | JStr string

type_synonym jobject = "(string \<times> jval) list"

text \<open>
  \<^verbatim>\<open>obj[key]\<close> for a key of the object's own, or a key that \<^verbatim>\<open>Object.prototype\<close> does
  not define: the own property's value, \<^verbatim>\<open>undefined\<close> when there is none.
\<close>

definition get_prop :: "jobject \<Rightarrow> string \<Rightarrow> jval" where
  "get_prop obj key = (case map_of obj key of None \<Rightarrow> JUndefined | Some v \<Rightarrow> v)"

text \<open>JavaScript's truthiness of a scalar.\<close>

fun truthy :: "jval \<Rightarrow> bool" where
  "truthy JUndefined = False"
| "truthy JNull = False"
| "truthy (JBool b) = b"
| "truthy (JNum n) = (n \<noteq> 0)"
| "truthy (JStr s) = (s \<noteq> [])"

text \<open>\<^verbatim>\<open>v || 0\<close>: the left operand when it is truthy, else the number 0.\<close>

definition or_zero :: "jval \<Rightarrow> jval" where
  "or_zero v = (if truthy v then v else JNum 0)"

text \<open>
  \<^verbatim>\<open>const downloads = pluginData.downloads || 0\<close>. The scripts use the value as a number
  from here on. \<open>number_of\<close> is the number that a numeric value is, and is left
  unspecified on every other value: a truthy count that is not a number, which the
  statistics file does not have, stays what it is in the scripts.
\<close>

fun number_of :: "jval \<Rightarrow> int" where
  "number_of (JNum n) = n"

definition downloads_of :: "jobject \<Rightarrow> int" where
  "downloads_of pluginData = number_of (or_zero (get_prop pluginData ''downloads''))"

section \<open>Property order and assignment\<close>

text \<open>
  A key is an array index when it is the decimal numeral, without a sign or a leading
  zero, of an integer from 0 to \<open>2\<^sup>3\<^sup>2 - 2\<close>. \<^verbatim>\<open>for ... in\<close>, \<^verbatim>\<open>Object.keys\<close>, the spread
  of an object literal and \<^verbatim>\<open>JSON.stringify\<close> go through the own properties in the same
  order: the array indices ascending, then the other keys in the order of their creation.
\<close>

definition is_digit :: "char \<Rightarrow> bool" where
  "is_digit ch = (ch \<in> set ''0123456789'')"

definition digit_value :: "char \<Rightarrow> int" where
  "digit_value ch = int (length (takeWhile (\<lambda>d. d \<noteq> ch) ''0123456789''))"

definition decimal_value :: "string \<Rightarrow> int" where
  "decimal_value s = foldl (\<lambda>acc ch. 10 * acc + digit_value ch) 0 s"

definition is_index_key :: "string \<Rightarrow> bool" where
  "is_index_key key =
     (key \<noteq> [] \<and> list_all is_digit key \<and> (if hd key = CHR ''0'' then key = ''0'' else True)
      \<and> decimal_value key \<le> 4294967294)"

definition js_keys :: "jobject \<Rightarrow> string list" where
  "js_keys obj =
     sort_key decimal_value (filter is_index_key (map fst obj))
       @ filter (\<lambda>key. \<not> is_index_key key) (map fst obj)"

definition js_enumerate :: "jobject \<Rightarrow> jobject" where
  "js_enumerate obj = map (\<lambda>key. (key, get_prop obj key)) (js_keys obj)"

text \<open>
  \<^verbatim>\<open>obj[key] = v\<close> on an object that inherits from \<^verbatim>\<open>Object.prototype\<close>, for a scalar
  \<open>v\<close>: the value of an existing own property is replaced where it stands, a new
  property is created last. The key \<^verbatim>\<open>__proto__\<close> is the exception: the assignment
  calls the setter that \<^verbatim>\<open>Object.prototype\<close> has for it, which creates no property (and
  for a number, a string or a boolean does nothing at all).
\<close>

definition js_assign :: "jobject \<Rightarrow> string \<Rightarrow> jval \<Rightarrow> jobject" where
  "js_assign obj key v = (if key = ''__proto__'' then obj else AList.update key v obj)"

section \<open>Commits and snapshots\<close>

text \<open>
  A commit of \<^verbatim>\<open>git log --pretty=format:"%H %at"\<close>: the hash and the author time, which
  git prints as a natural number of seconds; the scripts keep it in milliseconds.
\<close>

record commit =
  hash :: string
  timestamp :: int

definition parse_line :: "string \<times> nat \<Rightarrow> commit" where
  "parse_line line = \<lparr>hash = fst line, timestamp = int (snd line) * 1000\<rparr>"

text \<open>
  What a snapshot holds under a plugin name: a plugin record, or a scalar. The third
  constructor is what a lookup finds when the snapshot has no such key of its own and
  \<^verbatim>\<open>Object.prototype\<close> has a property of that name: a function, or for \<^verbatim>\<open>__proto__\<close> the
  prototype object itself.
\<close>

datatype jentry = JScalar jval | JRecord jobject | JBuiltin

text \<open>
  What \<^verbatim>\<open>git show hash:file\<close> followed by \<^verbatim>\<open>JSON.parse\<close> gives for a commit: an exception
  (the command fails, or the text is not JSON), or the parsed snapshot, an object, as
  the list of its own properties.
\<close>

datatype fetch = Threw | Parsed "(string \<times> jentry) list"

text \<open>The names of the properties of \<^verbatim>\<open>Object.prototype\<close>.\<close>

definition object_prototype_keys :: "string list" where
  "object_prototype_keys =
     [''constructor'', ''__defineGetter__'', ''__defineSetter__'', ''hasOwnProperty'',
      ''__lookupGetter__'', ''__lookupSetter__'', ''isPrototypeOf'', ''propertyIsEnumerable'',
      ''toString'', ''valueOf'', ''__proto__'', ''toLocaleString'']"

text \<open>
  \<^verbatim>\<open>statsData[pluginName]\<close>: the own property when there is one, else the property that
  the snapshot inherits; \<open>None\<close> is \<^verbatim>\<open>undefined\<close>.
\<close>

definition js_member :: "(string \<times> jentry) list \<Rightarrow> string \<Rightarrow> jentry option" where
  "js_member statsData pluginName =
     (case map_of statsData pluginName of
        Some found \<Rightarrow> Some found
      | None \<Rightarrow> if pluginName \<in> set object_prototype_keys then Some JBuiltin else None)"

fun entry_truthy :: "jentry \<Rightarrow> bool" where
  "entry_truthy (JScalar v) = truthy v"
| "entry_truthy (JRecord r) = True"
| "entry_truthy JBuiltin = True"

text \<open>
  The enumerable properties that \<^verbatim>\<open>pluginData.downloads\<close>, \<^verbatim>\<open>for (const key in
  pluginData)\<close>, \<^verbatim>\<open>Object.keys(pluginData)\<close> and \<^verbatim>\<open>pluginData[key]\<close> see: those of a
  record; the characters of a string under their indices; none for another scalar, for
  a function and for \<^verbatim>\<open>Object.prototype\<close>.
\<close>

definition digit_char :: "nat \<Rightarrow> char" where
  "digit_char n = ''0123456789'' ! n"

fun decimal :: "nat \<Rightarrow> string" where
  "decimal n = (if n < 10 then [digit_char n] else decimal (n div 10) @ [digit_char (n mod 10)])"

declare decimal.simps [simp del]

fun enumerable_props :: "jentry \<Rightarrow> jobject" where
  "enumerable_props (JRecord r) = r"
| "enumerable_props (JScalar (JStr s)) = map (\<lambda>i. (decimal i, JStr [s ! i])) [0..<length s]"
| "enumerable_props (JScalar v) = []"
| "enumerable_props JBuiltin = []"

text \<open>
  The test \<^verbatim>\<open>if (!statsData[pluginName]) break;\<close> and, when the loop goes on,
  \<^verbatim>\<open>const pluginData = statsData[pluginName]\<close>: \<open>None\<close> when the loop is left, which is
  when the lookup gives \<^verbatim>\<open>undefined\<close> or a falsy scalar.
\<close>

definition plugin_data :: "(string \<times> jentry) list \<Rightarrow> string \<Rightarrow> jobject option" where
  "plugin_data statsData pluginName =
     (case js_member statsData pluginName of
        None \<Rightarrow> None
      | Some found \<Rightarrow> if entry_truthy found then Some (enumerable_props found) else None)"

text \<open>
  \<^verbatim>\<open>new Date(t).toISOString().split("T")[0]\<close>: the UTC calendar day of a time value. A
  day is represented by its number since the epoch, which the text \<^verbatim>\<open>YYYY-MM-DD\<close>
  determines and is determined by. \<^verbatim>\<open>toISOString\<close> throws a RangeError outside the
  range of time values.
\<close>

definition valid_time :: "int \<Rightarrow> bool" where
  "valid_time t = (\<bar>t\<bar> \<le> 8640000000000000)"

definition date_of :: "int \<Rightarrow> int" where
  "date_of t = t div 86400000"

section \<open>Numbers\<close>

text \<open>
  A number of the scripts is an IEEE 754 double: a rational \<open>m * 2\<^sup>e\<close> with an integer
  \<open>m\<close> of at most 53 bits. The counts and the timestamps, their sums and their
  differences are integers far below \<open>2\<^sup>5\<^sup>3\<close> and are computed exactly. A quotient
  \<^verbatim>\<open>x / y\<close> is the exact quotient rounded to the nearest double, a tie going to the
  double with the even \<open>m\<close>. \<open>binary_exponent x\<close> is the \<open>e\<close> with
  \<open>2\<^sup>e \<le> x < 2\<^sup>e\<^sup>+\<^sup>1\<close> for \<open>x > 0\<close>, and the doubles between these two powers are \<open>2\<^sup>e\<^sup>-\<^sup>5\<^sup>2\<close>
  apart. The quotients of the scripts are far inside the range of the exponents of a
  double, so that no quotient overflows or is subnormal, and no divisor is 0 where the
  quotient is used.
\<close>

definition pow2 :: "int \<Rightarrow> rat" where
  "pow2 e = (if 0 \<le> e then 2 ^ nat e else 1 / 2 ^ nat (- e))"

definition binary_exponent :: "rat \<Rightarrow> int" where
  "binary_exponent x = (if 1 \<le> x then bitlen \<lfloor>x\<rfloor> - 1 else - bitlen (\<lceil>1 / x\<rceil> - 1))"

definition round_half_even :: "rat \<Rightarrow> int" where
  "round_half_even m =
     (let f = \<lfloor>m\<rfloor>; r = m - of_int f
      in if r < 1 / 2 then f else if 1 / 2 < r then f + 1 else if even f then f else f + 1)"

definition to_double :: "rat \<Rightarrow> rat" where
  "to_double x =
     (if x = 0 then 0
      else (let ulp = pow2 (binary_exponent \<bar>x\<bar> - 52)
            in of_int (round_half_even (x / ulp)) * ulp))"

definition js_div :: "rat \<Rightarrow> rat \<Rightarrow> rat" where
  "js_div x y = to_double (x / y)"

text \<open>
  \<^verbatim>\<open>Math.round\<close>: the nearest integer, a tie going up. The chart script applies it to a
  mean of growth rates, which is taken as the exact quotient.
\<close>

definition js_round :: "rat \<Rightarrow> int" where
  "js_round q = \<lfloor>q + 1 / 2\<rfloor>"

text \<open>\<^verbatim>\<open>key.endsWith(suf)\<close>.\<close>

definition ends_with :: "string \<Rightarrow> string \<Rightarrow> bool" where
  "ends_with key suf =
     (length suf \<le> length key \<and> drop (length key - length suf) key = suf)"

section \<open>The loop over the commits\<close>

text \<open>
  \<^verbatim>\<open>for (const commit of commits) { try { ... } catch (error) { ... } }\<close>: an iteration
  either goes on to the next commit (it ran to its end, hit \<^verbatim>\<open>continue\<close>, or threw
  and was caught) or leaves the loop (\<^verbatim>\<open>break\<close>).
\<close>

datatype 's flow = Continue 's | Break 's

fun for_of :: "('c \<Rightarrow> 's \<Rightarrow> 's flow) \<Rightarrow> 'c list \<Rightarrow> 's \<Rightarrow> 's" where
  "for_of body [] st = st"
| "for_of body (c # cs) st =
     (case body c st of Break st' \<Rightarrow> st' | Continue st' \<Rightarrow> for_of body cs st')"

section \<open>Version maps\<close>

text \<open>
  Strict variant, the \<^verbatim>\<open>for (const key in pluginData)\<close> loop: the reserved keys and
  the keys ending in \<^verbatim>\<open>-beta\<close> are skipped, every other key is assigned
  (\<^verbatim>\<open>dataPoint.versions[key] = pluginData[key]\<close>).
\<close>

fun version_loop :: "jobject \<Rightarrow> string list \<Rightarrow> jobject \<Rightarrow> jobject" where
  "version_loop pluginData [] versions = versions"
| "version_loop pluginData (key # keys) versions =
     (if key = ''downloads'' \<or> key = ''updated'' then version_loop pluginData keys versions
      else if ends_with key ''-beta'' then version_loop pluginData keys versions
      else version_loop pluginData keys (js_assign versions key (get_prop pluginData key)))"

definition strict_versions :: "jobject \<Rightarrow> jobject" where
  "strict_versions pluginData = version_loop pluginData (js_keys pluginData) []"

text \<open>
  Simple variant:
  \<^verbatim>\<open>Object.keys(pluginData).filter(key => key !== "downloads" && key !== "updated")
     .reduce((obj, key) => { obj[key] = pluginData[key]; return obj; }, {})\<close>.
\<close>

definition simple_versions :: "jobject \<Rightarrow> jobject" where
  "simple_versions pluginData =
     foldl (\<lambda>obj key. js_assign obj key (get_prop pluginData key)) []
       (filter (\<lambda>key. key \<noteq> ''downloads'' \<and> key \<noteq> ''updated'') (js_keys pluginData))"

section \<open>Strict variant: collecting the raw data\<close>

record dataPoint = commit +
  date :: int
  downloads :: int
  versions :: jobject

text \<open>
  The state of the first loop: the points pushed so far, and the hashes handed to
  \<^verbatim>\<open>git show\<close> so far (the commits the loop has examined).
\<close>

record collected =
  rawData :: "dataPoint list"
  examined :: "string list"

definition collect_body ::
    "string \<Rightarrow> (string \<Rightarrow> fetch) \<Rightarrow> commit \<Rightarrow> collected \<Rightarrow> collected flow" where
  "collect_body pluginName git_show c st =
     (let st = st\<lparr>examined := examined st @ [hash c]\<rparr> in
      case git_show (hash c) of
        Threw \<Rightarrow> Continue st
      | Parsed statsData \<Rightarrow>
          (case plugin_data statsData pluginName of
             None \<Rightarrow> Break st
           | Some pluginData \<Rightarrow>
               if \<not> valid_time (timestamp c) then Continue st
               else Continue (st\<lparr>rawData := rawData st @
                 [\<lparr>hash = hash c, timestamp = timestamp c, date = date_of (timestamp c),
                   downloads = downloads_of pluginData,
                   versions = strict_versions pluginData\<rparr>]\<rparr>)))"

definition collect :: "string \<Rightarrow> (string \<Rightarrow> fetch) \<Rightarrow> commit list \<Rightarrow> collected" where
  "collect pluginName git_show commits =
     for_of (collect_body pluginName git_show) commits \<lparr>rawData = [], examined = []\<rparr>"

section \<open>Strict variant: the anomaly filter\<close>

text \<open>
  \<^verbatim>\<open>rawData.sort((a, b) => b.timestamp - a.timestamp)\<close>: a stable sort, newest first.
\<close>

definition sort_newest_first :: "dataPoint list \<Rightarrow> dataPoint list" where
  "sort_newest_first points = sort_key (\<lambda>p. - timestamp p) points"

text \<open>
  The second loop, \<^verbatim>\<open>for (let i = 0; i < rawData.length; i++)\<close>. \<open>check_point\<close> is the
  value of \<^verbatim>\<open>isValid\<close> at the end of iteration \<open>i\<close>; \<open>filter_iter rawData i\<close> is the state
  after the first \<open>i\<close> iterations. Every index read is in range: \<open>i - 1\<close> is read for
  \<open>i > 0\<close> and \<open>i + 1\<close> for \<open>i < length rawData - 1\<close>.
\<close>

record filtered =
  validData :: "dataPoint list"
  skippedCount :: nat

definition check_point :: "dataPoint list \<Rightarrow> nat \<Rightarrow> bool" where
  "check_point points i =
     (let current = points ! i;
          isValid = True;
          isValid = (if i > 0
                     then (let prev = points ! (i - 1)
                           in if downloads current > downloads prev then False else isValid)
                     else isValid);
          isValid = (if i < length points - 1
                     then (let next = points ! (i + 1)
                           in if downloads current < downloads next then False else isValid)
                     else isValid)
      in isValid)"

definition filter_body :: "dataPoint list \<Rightarrow> nat \<Rightarrow> filtered \<Rightarrow> filtered" where
  "filter_body points i st =
     (if check_point points i then st\<lparr>validData := validData st @ [points ! i]\<rparr>
      else st\<lparr>skippedCount := skippedCount st + 1\<rparr>)"

primrec filter_iter :: "dataPoint list \<Rightarrow> nat \<Rightarrow> filtered" where
  "filter_iter points 0 = \<lparr>validData = [], skippedCount = 0\<rparr>"
| "filter_iter points (Suc i) = filter_body points i (filter_iter points i)"

definition anomaly_filter :: "dataPoint list \<Rightarrow> filtered" where
  "anomaly_filter points = filter_iter points (length points)"

section \<open>Strict variant: the history and the daily growth\<close>

text \<open>
  The object literal \<^verbatim>\<open>{ downloads: point.downloads, dailyGrowth: dailyGrowth,
  ...point.versions }\<close>: the spread defines the version counts after the two fields, in
  the order in which the version map enumerates them.
\<close>

definition entry_data :: "int \<Rightarrow> int \<Rightarrow> jobject \<Rightarrow> jobject" where
  "entry_data d g vs =
     foldl (\<lambda>obj key. AList.update key (get_prop vs key) obj)
       [(''downloads'', JNum d), (''dailyGrowth'', JNum g)] (js_keys vs)"

record historyValue =
  hv_date :: int
  hv_data :: jobject

text \<open>
  The third loop, \<^verbatim>\<open>for (let i = validData.length - 1; i >= 0; i--)\<close>. The object
  \<^verbatim>\<open>history\<close> is the list of its properties in creation order, keyed by the timestamp;
  an assignment to an existing key replaces the value where it stands. The two
  quotients are quotients of doubles. \<open>growth_iter validData j\<close> is the state after the
  first \<open>j\<close> iterations, the last of them at index \<open>length validData - j\<close>.
\<close>

record growth_state =
  historyObj :: "(int \<times> historyValue) list"
  previousDownloads :: int
  previousTimestamp :: int

definition growth_body :: "dataPoint list \<Rightarrow> nat \<Rightarrow> growth_state \<Rightarrow> growth_state" where
  "growth_body points i st =
     (let point = points ! i;
          dailyGrowth =
            (if i = length points - 1 then downloads point
             else (let daysDifference =
                         js_div (of_int (timestamp point - previousTimestamp st))
                           (1000 * 60 * 60 * 24);
                       downloadDifference = downloads point - previousDownloads st
                   in if daysDifference > 0
                      then js_round (js_div (of_int downloadDifference) daysDifference)
                      else 0))
      in \<lparr>historyObj =
            AList.update (timestamp point)
              \<lparr>hv_date = date point,
                hv_data = entry_data (downloads point) dailyGrowth (versions point)\<rparr>
              (historyObj st),
          previousDownloads = downloads point,
          previousTimestamp = timestamp point\<rparr>)"

primrec growth_iter :: "dataPoint list \<Rightarrow> nat \<Rightarrow> growth_state" where
  "growth_iter points 0 = \<lparr>historyObj = [], previousDownloads = 0, previousTimestamp = 0\<rparr>"
| "growth_iter points (Suc j) = growth_body points (length points - 1 - j) (growth_iter points j)"

definition build_history :: "dataPoint list \<Rightarrow> growth_state" where
  "build_history points = growth_iter points (length points)"

text \<open>
  The order in which \<^verbatim>\<open>JSON.stringify\<close> writes the properties of an object with numeric
  keys: the array indices (the integers from 0 to \<open>2\<^sup>3\<^sup>2 - 2\<close>) ascending, then the other
  keys in creation order.
\<close>

definition is_array_index :: "int \<Rightarrow> bool" where
  "is_array_index k = (0 \<le> k \<and> k \<le> 4294967294)"

definition own_properties :: "(int \<times> 'v) list \<Rightarrow> (int \<times> 'v) list" where
  "own_properties obj =
     sort_key fst (filter (\<lambda>kv. is_array_index (fst kv)) obj)
       @ filter (\<lambda>kv. \<not> is_array_index (fst kv)) obj"

text \<open>
  The strict script from the log to the properties it writes, in the order in which it
  writes them, those of the object of an entry included.
\<close>

definition extract_plugin_stats ::
    "string \<Rightarrow> (string \<Rightarrow> fetch) \<Rightarrow> (string \<times> nat) list \<Rightarrow> (int \<times> historyValue) list" where
  "extract_plugin_stats pluginName git_show lines =
     (let commits = map parse_line lines;
          raw = sort_newest_first (rawData (collect pluginName git_show commits));
          valid = validData (anomaly_filter raw)
      in map (\<lambda>kv. (fst kv, (snd kv)\<lparr>hv_data := js_enumerate (hv_data (snd kv))\<rparr>))
           (own_properties (historyObj (build_history valid))))"

section \<open>Simple variant\<close>

definition simple_pluginName :: string where
  "simple_pluginName = ''chatgpt-md''"

record entry =
  entry_date :: int
  entry_hash :: string
  entry_downloads :: int
  entry_versions :: jobject

record simple_state =
  history :: "entry list"
  lastValidDownloads :: int
  foundFirstEntry :: bool
  fetched :: "string list"

text \<open>
  The iteration from the duplicate-date check to its end, for a commit whose snapshot
  has the plugin: \<open>d\<close> is \<^verbatim>\<open>downloads\<close> and \<open>day\<close> is \<^verbatim>\<open>date\<close>.
\<close>

definition simple_filter_step ::
    "commit \<Rightarrow> jobject \<Rightarrow> int \<Rightarrow> int \<Rightarrow> simple_state \<Rightarrow> simple_state" where
  "simple_filter_step c pluginData d day st =
     (if list_ex (\<lambda>e. entry_date e = day) (history st) then st
      else if \<not> foundFirstEntry st then
        st\<lparr>foundFirstEntry := True, lastValidDownloads := d,
           history := history st @
             [\<lparr>entry_date = day, entry_hash = hash c, entry_downloads = d,
               entry_versions = simple_versions pluginData\<rparr>]\<rparr>
      else if d > lastValidDownloads st then st
      else
        st\<lparr>history := history st @
             [\<lparr>entry_date = day, entry_hash = hash c, entry_downloads = d,
               entry_versions = simple_versions pluginData\<rparr>],
           lastValidDownloads := d\<rparr>)"

definition simple_body :: "(string \<Rightarrow> fetch) \<Rightarrow> commit \<Rightarrow> simple_state \<Rightarrow> simple_state flow" where
  "simple_body git_show c st =
     (let st = st\<lparr>fetched := fetched st @ [hash c]\<rparr> in
      case git_show (hash c) of
        Threw \<Rightarrow> Continue st
      | Parsed statsData \<Rightarrow>
          (case plugin_data statsData simple_pluginName of
             None \<Rightarrow> Break st
           | Some pluginData \<Rightarrow>
               if \<not> valid_time (timestamp c) then Continue st
               else Continue (simple_filter_step c pluginData (downloads_of pluginData)
                                (date_of (timestamp c)) st)))"

definition simple_init :: simple_state where
  "simple_init =
     \<lparr>history = [], lastValidDownloads = 0, foundFirstEntry = False, fetched = []\<rparr>"

definition simple_loop :: "(string \<Rightarrow> fetch) \<Rightarrow> commit list \<Rightarrow> simple_state" where
  "simple_loop git_show commits = for_of (simple_body git_show) commits simple_init"

text \<open>
  \<^verbatim>\<open>history.sort((a, b) => new Date(a.date) - new Date(b.date))\<close>: a stable sort by the
  calendar day; its result is the array the script writes.
\<close>

definition simple_extract :: "(string \<Rightarrow> fetch) \<Rightarrow> (string \<times> nat) list \<Rightarrow> entry list" where
  "simple_extract git_show lines =
     sort_key entry_date (history (simple_loop git_show (map parse_line lines)))"

section \<open>Chart script: rolling averages\<close>

text \<open>
  \<^verbatim>\<open>xs.slice(start, stop)\<close> for \<open>0 \<le> start\<close>. A point of \<^verbatim>\<open>derivativeData\<close> is the pair
  of its \<^verbatim>\<open>x\<close> and its \<^verbatim>\<open>y\<close>. The two loops differ in the window size only; the
  mean \<^verbatim>\<open>sum / windowValues.length\<close> is an exact rational. \<open>rolling_iter w d i\<close> is the
  array after the first \<open>i\<close> iterations.
\<close>

definition js_slice :: "'a list \<Rightarrow> nat \<Rightarrow> nat \<Rightarrow> 'a list" where
  "js_slice xs start stop = take (stop - start) (drop start xs)"

definition rolling_body :: "int \<Rightarrow> ('x \<times> int) list \<Rightarrow> nat \<Rightarrow> 'x \<times> int" where
  "rolling_body windowSize derivativeData i =
     (let startIdx = nat (max 0 (int i - windowSize + 1));
          windowValues = map snd (js_slice derivativeData startIdx (i + 1));
          total = foldl (\<lambda>acc v. acc + v) 0 windowValues;
          avg = (if length windowValues > 0
                 then (of_int total :: rat) / of_nat (length windowValues) else 0)
      in (fst (derivativeData ! i), js_round avg))"

primrec rolling_iter :: "int \<Rightarrow> ('x \<times> int) list \<Rightarrow> nat \<Rightarrow> ('x \<times> int) list" where
  "rolling_iter windowSize derivativeData 0 = []"
| "rolling_iter windowSize derivativeData (Suc i) =
     rolling_iter windowSize derivativeData i @ [rolling_body windowSize derivativeData i]"

definition rollingAverageData7Day :: "('x \<times> int) list \<Rightarrow> ('x \<times> int) list" where
  "rollingAverageData7Day derivativeData =
     rolling_iter 7 derivativeData (length derivativeData)"

definition rollingAverageData30Day :: "('x \<times> int) list \<Rightarrow> ('x \<times> int) list" where
  "rollingAverageData30Day derivativeData =
     rolling_iter 30 derivativeData (length derivativeData)"

section \<open>Notions used in the statements and the proofs\<close>

text \<open>
  The loops leave at a commit whose snapshot parsed and has nothing truthy under the
  plugin's name (\<^verbatim>\<open>!statsData[pluginName]\<close>).
\<close>

definition plugin_absent :: "(string \<Rightarrow> fetch) \<Rightarrow> string \<Rightarrow> commit \<Rightarrow> bool" where
  "plugin_absent git_show name c =
     (case git_show (hash c) of
        Threw \<Rightarrow> False
      | Parsed statsData \<Rightarrow> plugin_data statsData name = None)"

text \<open>
  The raw point of a commit in the simple variant: the entry the iteration builds when
  it gets as far as building one.
\<close>

definition simple_point :: "(string \<Rightarrow> fetch) \<Rightarrow> commit \<Rightarrow> entry option" where
  "simple_point git_show c =
     (case git_show (hash c) of
        Threw \<Rightarrow> None
      | Parsed statsData \<Rightarrow>
          (case plugin_data statsData simple_pluginName of
             None \<Rightarrow> None
           | Some pluginData \<Rightarrow>
               if \<not> valid_time (timestamp c) then None
               else Some \<lparr>entry_date = date_of (timestamp c), entry_hash = hash c,
                           entry_downloads = downloads_of pluginData,
                           entry_versions = simple_versions pluginData\<rparr>))"

text \<open>The invariant of the simple variant's loop.\<close>

definition simple_inv :: "simple_state \<Rightarrow> bool" where
  "simple_inv st =
     (sorted (rev (map entry_downloads (history st)))
      \<and> distinct (map entry_date (history st))
      \<and> (if foundFirstEntry st
         then history st \<noteq> [] \<and> lastValidDownloads st = entry_downloads (last (history st))
         else history st = []))"

section \<open>Sample inputs\<close>

text \<open>The plugin record of the version-exclusion example.\<close>

definition example_record :: jobject where
  "example_record =
     [(''downloads'', JNum 10), (''updated'', JStr ''x''), (''1.0.0'', JNum 5),
      (''1.1.0-beta'', JNum 2)]"

text \<open>
  A raw series, newest first, with downloads 5, 1, 20, 10 on four consecutive days.
\<close>

definition pt :: "int \<Rightarrow> int \<Rightarrow> dataPoint" where
  "pt t d = \<lparr>hash = [], timestamp = t, date = date_of t, downloads = d, versions = []\<rparr>"

definition dip_series :: "dataPoint list" where
  "dip_series = [pt 345600000 5, pt 259200000 1, pt 172800000 20, pt 86400000 10]"

text \<open>
  A log of six commits, newest first, and the snapshots at them: downloads 10 on day 3,
  then 20 and 5 on day 2, a record without \<^verbatim>\<open>downloads\<close> on day 1, a snapshot without
  the plugin, and an older snapshot that has it again. A seventh snapshot, for other
  logs, has downloads 7.
\<close>

definition sample_show :: "string \<Rightarrow> fetch" where
  "sample_show h =
     (if h = ''c1'' then
        Parsed [(''chatgpt-md'', JRecord [(''downloads'', JNum 10), (''1.0.0'', JNum 10)])]
      else if h = ''c2'' then Parsed [(''chatgpt-md'', JRecord [(''downloads'', JNum 20)])]
      else if h = ''c3'' then Parsed [(''chatgpt-md'', JRecord [(''downloads'', JNum 5)])]
      else if h = ''c4'' then Parsed [(''chatgpt-md'', JRecord [(''updated'', JStr ''x'')])]
      else if h = ''c5'' then Parsed [(''another-plugin'', JRecord [(''downloads'', JNum 7)])]
      else if h = ''c6'' then Parsed [(''chatgpt-md'', JRecord [(''downloads'', JNum 1)])]
      else if h = ''c7'' then Parsed [(''chatgpt-md'', JRecord [(''downloads'', JNum 7)])]
      else Threw)"

definition sample_log :: "(string \<times> nat) list" where
  "sample_log =
     [(''c1'', 259200), (''c2'', 176400), (''c3'', 172800), (''c4'', 86400), (''c5'', 3600),
      (''c6'', 0)]"

text \<open>
  Three commits, newest first: downloads 10 on day 3, then 20 and 5 on day 2; and two
  commits of the same day 3.
\<close>

definition same_day_log :: "(string \<times> nat) list" where
  "same_day_log = [(''c1'', 259200), (''c2'', 176400), (''c3'', 172800)]"

definition repeat_day_log :: "(string \<times> nat) list" where
  "repeat_day_log = [(''c1'', 300000), (''c3'', 259200)]"

text \<open>
  Downloads 10 and then 5 on day 3, and 7 on day 2.
\<close>

definition occupied_day_log :: "(string \<times> nat) list" where
  "occupied_day_log = [(''c1'', 300000), (''c3'', 259200), (''c7'', 172800)]"

text \<open>
  Downloads 10 on day 3 and, later in the log, a record without \<^verbatim>\<open>downloads\<close> on the
  same day.
\<close>

definition missing_count_log :: "(string \<times> nat) list" where
  "missing_count_log = [(''c1'', 300000), (''c4'', 259200)]"

text \<open>A plugin record with a version named \<^verbatim>\<open>__proto__\<close>.\<close>

definition proto_record :: jobject where
  "proto_record = [(''downloads'', JNum 3), (''__proto__'', JNum 5), (''1.0.0'', JNum 4)]"

text \<open>
  Validated points, newest first: 150 downloads at day 10 (twice, at the same
  timestamp) and 100 downloads at day 0.
\<close>

definition growth_sample :: "dataPoint list" where
  "growth_sample = [pt 864000000 150, pt 864000000 150, pt 0 100]"

text \<open>
  Points, newest first: 103 downloads, 2304 seconds after 100 downloads; and a series
  of 10 downloads, 15 downloads two days later and 10 downloads another two days later.
\<close>

definition drift_sample :: "dataPoint list" where
  "drift_sample = [pt 1700002304000 103, pt 1700000000000 100]"

definition tie_sample :: "dataPoint list" where
  "tie_sample = [pt 345600000 10, pt 172800000 15, pt 0 10]"

text \<open>A growth-rate series of two points, with rates 1 and 2.\<close>

definition ramp :: "(nat \<times> int) list" where
  "ramp = [(0, 1), (1, 2)]"

section \<open>The loop over the commits, in general\<close>

text \<open>
  A property kept by every iteration holds when the loop is left, by \<^verbatim>\<open>break\<close> or at the
  end of the list.
\<close>

lemma for_of_invariant:
  assumes "I st"
    and "\<And>c s s'. I s \<Longrightarrow> body c s = Continue s' \<Longrightarrow> I s'"
    and "\<And>c s s'. I s \<Longrightarrow> body c s = Break s' \<Longrightarrow> I s'"
  shows "I (for_of body cs st)"
  using assms(1)
proof (induction cs arbitrary: st)
  case Nil
  then show ?case by simp
next
  case (Cons c cs)
  show ?case
  proof (cases "body c st")
    case (Continue s')
    with Cons assms(2) show ?thesis by simp
  next
    case (Break s')
    with Cons.prems assms(3) show ?thesis by simp
  qed
qed

text \<open>
  A prefix of commits none of which leaves the loop can be run first; a commit that
  always leaves the loop hides everything behind it.
\<close>

lemma for_of_append:
  assumes "\<forall>c \<in> set pre. \<forall>s. \<exists>s'. body c s = Continue s'"
  shows "for_of body (pre @ cs) st = for_of body cs (for_of body pre st)"
  using assms
proof (induction pre arbitrary: st)
  case Nil
  then show ?case by simp
next
  case (Cons c pre)
  then obtain s' where "body c st = Continue s'"
    by (meson list.set_intros(1))
  with Cons show ?case by simp
qed

lemma for_of_break:
  assumes "\<forall>s. \<exists>s'. body c s = Break s'"
  shows "for_of body (pre @ c # rest) st = for_of body (pre @ [c]) st"
proof (induction pre arbitrary: st)
  case Nil
  from assms obtain s' where "body c st = Break s'" by blast
  then show ?case by simp
next
  case (Cons a pre)
  then show ?case by (cases "body a st") simp_all
qed

lemma for_of_snoc_break:
  assumes "\<And>s. \<exists>s'. body c s = Break s' \<and> proj s' = proj s"
  shows "proj (for_of body (pre @ [c]) st) = proj (for_of body pre st)"
proof (induction pre arbitrary: st)
  case Nil
  from assms [of st] show ?case by auto
next
  case (Cons a pre)
  then show ?case by (cases "body a st") simp_all
qed

text \<open>
  When every iteration records its commit's hash, the record is a prefix of the hashes of
  the commits, in their order.
\<close>

lemma for_of_trace:
  assumes "\<And>c s s'. body c s = Continue s' \<or> body c s = Break s' \<Longrightarrow> tr s' = tr s @ [hash c]"
  shows "prefix (tr (for_of body cs st)) (tr st @ map hash cs)"
proof (induction cs arbitrary: st)
  case Nil
  show ?case by simp
next
  case (Cons c cs)
  show ?case
  proof (cases "body c st")
    case (Continue s')
    with assms [of c st s'] Cons [of s'] show ?thesis by simp
  next
    case (Break s')
    with assms [of c st s'] show ?thesis by simp
  qed
qed


section \<open>Property order\<close>

lemma set_js_keys: "set (js_keys obj) = fst ` set obj"
  by (auto simp: js_keys_def)

lemma js_keys_plain:
  "\<forall>key \<in> fst ` set obj. \<not> is_index_key key \<Longrightarrow> js_keys obj = map fst obj"
  by (simp add: js_keys_def filter_id_conv filter_empty_conv)

text \<open>
  The enumeration goes through every own property once, and an object without array
  indices is enumerated in the order of creation.
\<close>

lemma map_of_js_enumerate: "map_of (js_enumerate obj) key = map_of obj key"
proof -
  have "map_of (map (\<lambda>key. (key, get_prop obj key)) keys) key =
      (if key \<in> set keys then Some (get_prop obj key) else None)" for keys
    by (induction keys) auto
  then have *: "map_of (js_enumerate obj) key =
      (if key \<in> fst ` set obj then Some (get_prop obj key) else None)"
    by (simp add: js_enumerate_def set_js_keys)
  show ?thesis
  proof (cases "map_of obj key")
    case None
    then have "key \<notin> fst ` set obj" by (simp add: map_of_eq_None_iff)
    with * None show ?thesis by simp
  next
    case (Some v)
    then have "map_of obj key \<noteq> None" by simp
    then have "key \<in> fst ` set obj" by (simp add: map_of_eq_None_iff)
    with * Some show ?thesis by (simp add: get_prop_def)
  qed
qed


section \<open>Version maps\<close>

lemma get_prop_in_keys:
  "key \<in> fst ` set obj \<Longrightarrow> Some (get_prop obj key) = map_of obj key"
  by (auto simp: get_prop_def map_of_eq_None_iff split: option.splits)

lemma map_of_js_assign:
  "map_of (js_assign obj key v) k =
     (if k = key \<and> key \<noteq> ''__proto__'' then Some v else map_of obj k)"
  by (simp add: js_assign_def update_conv')

lemma map_of_version_loop:
  "map_of (version_loop pluginData keys vs) k =
     (if k \<in> set keys \<and> k \<noteq> ''downloads'' \<and> k \<noteq> ''updated'' \<and> \<not> ends_with k ''-beta''
         \<and> k \<noteq> ''__proto__''
      then Some (get_prop pluginData k) else map_of vs k)"
proof (induction keys arbitrary: vs)
  case Nil
  show ?case by simp
next
  case (Cons key keys)
  consider (skip) "key = ''downloads'' \<or> key = ''updated'' \<or> ends_with key ''-beta''"
    | (proto) "\<not> (key = ''downloads'' \<or> key = ''updated'' \<or> ends_with key ''-beta'')"
        "key = ''__proto__''"
    | (copy) "\<not> (key = ''downloads'' \<or> key = ''updated'' \<or> ends_with key ''-beta'')"
        "key \<noteq> ''__proto__''"
    by blast
  then show ?case
  proof cases
    case skip
    then have eq: "version_loop pluginData (key # keys) vs = version_loop pluginData keys vs"
      by auto
    show ?thesis unfolding eq Cons.IH using skip by auto
  next
    case proto
    then have eq: "version_loop pluginData (key # keys) vs = version_loop pluginData keys vs"
      by (simp add: js_assign_def)
    show ?thesis unfolding eq Cons.IH using proto by auto
  next
    case copy
    then have eq: "version_loop pluginData (key # keys) vs =
        version_loop pluginData keys (AList.update key (get_prop pluginData key) vs)"
      by (simp add: js_assign_def)
    show ?thesis unfolding eq Cons.IH using copy by (auto simp: update_conv')
  qed
qed

lemma map_of_foldl_assign:
  "map_of (foldl (\<lambda>obj key. js_assign obj key (f key)) vs keys) k =
     (if k \<in> set keys \<and> k \<noteq> ''__proto__'' then Some (f k) else map_of vs k)"
proof (induction keys arbitrary: vs)
  case Nil
  show ?case by simp
next
  case (Cons key keys)
  show ?case
  proof (cases "key = ''__proto__''")
    case True
    then show ?thesis unfolding foldl_Cons Cons.IH by (auto simp: js_assign_def)
  next
    case False
    then show ?thesis unfolding foldl_Cons Cons.IH by (auto simp: js_assign_def update_conv')
  qed
qed

lemma map_of_foldl_update:
  "map_of (foldl (\<lambda>obj key. AList.update key (f key) obj) vs keys) k =
     (if k \<in> set keys then Some (f k) else map_of vs k)"
  by (induction keys arbitrary: vs) (auto simp: update_conv')

lemmas keys_eval =
  js_keys_def is_index_key_def is_digit_def decimal_value_def digit_value_def js_assign_def

lemma strict_versions_example: "strict_versions example_record = [(''1.0.0'', JNum 5)]"
  by (simp add: strict_versions_def example_record_def ends_with_def get_prop_def keys_eval)

lemma simple_versions_example:
  "simple_versions example_record = [(''1.0.0'', JNum 5), (''1.1.0-beta'', JNum 2)]"
  by (simp add: simple_versions_def example_record_def get_prop_def keys_eval)

text \<open>
  C8. What the scripts compute. The version map of a plugin record has the record's
  keys other than \<^verbatim>\<open>downloads\<close>, \<^verbatim>\<open>updated\<close> and \<^verbatim>\<open>__proto__\<close>, each with the record's
  value; the strict variant also leaves out every key ending in \<^verbatim>\<open>-beta\<close>. For the
  record \<^verbatim>\<open>{ "downloads": 10, "updated": "x", "1.0.0": 5, "1.1.0-beta": 2 }\<close> the strict
  variant gives \<^verbatim>\<open>{ "1.0.0": 5 }\<close> and the simple one
  \<^verbatim>\<open>{ "1.0.0": 5, "1.1.0-beta": 2 }\<close>. The key \<^verbatim>\<open>__proto__\<close> is not among the keys that
  the scripts skip: they assign it like every other version, and the assignment creates
  no property.
\<close>

theorem version_map_extraction:
  "map_of (simple_versions pluginData) key =
     (if key = ''downloads'' \<or> key = ''updated'' \<or> key = ''__proto__'' then None
      else map_of pluginData key)
   \<and> map_of (strict_versions pluginData) key =
     (if key = ''downloads'' \<or> key = ''updated'' \<or> ends_with key ''-beta''
         \<or> key = ''__proto__'' then None
      else map_of pluginData key)
   \<and> strict_versions example_record = [(''1.0.0'', JNum 5)]
   \<and> simple_versions example_record = [(''1.0.0'', JNum 5), (''1.1.0-beta'', JNum 2)]"
proof -
  have absent: "map_of pluginData key = None" if "key \<notin> fst ` set pluginData"
    using that by (simp add: map_of_eq_None_iff)
  have simple: "map_of (simple_versions pluginData) key =
     (if key = ''downloads'' \<or> key = ''updated'' \<or> key = ''__proto__'' then None
      else map_of pluginData key)"
    unfolding simple_versions_def map_of_foldl_assign
    using get_prop_in_keys [of key pluginData] absent by (auto simp: set_js_keys)
  have strict: "map_of (strict_versions pluginData) key =
     (if key = ''downloads'' \<or> key = ''updated'' \<or> ends_with key ''-beta''
         \<or> key = ''__proto__'' then None
      else map_of pluginData key)"
    unfolding strict_versions_def map_of_version_loop
    using get_prop_in_keys [of key pluginData] absent by (auto simp: set_js_keys)
  from simple strict strict_versions_example simple_versions_example show ?thesis by blast
qed

text \<open>
  The example record, key by key.
\<close>

theorem version_map_extraction_witness:
  "map_of (simple_versions example_record) ''1.1.0-beta'' = Some (JNum 2)
   \<and> map_of (strict_versions example_record) ''1.1.0-beta'' = None
   \<and> map_of (strict_versions example_record) ''1.0.0'' = Some (JNum 5)
   \<and> map_of (simple_versions example_record) ''downloads'' = None"
  using version_map_extraction [of example_record "''1.1.0-beta''"]
    version_map_extraction [of example_record "''1.0.0''"]
    version_map_extraction [of example_record "''downloads''"]
  by (simp add: example_record_def ends_with_def)

text \<open>
  C8, the input on which the scripts lose a version. The record
  \<^verbatim>\<open>{ "downloads": 3, "__proto__": 5, "1.0.0": 4 }\<close> has the key \<^verbatim>\<open>__proto__\<close>, which is
  not a reserved key and does not end in \<^verbatim>\<open>-beta\<close>; both variants give
  \<^verbatim>\<open>{ "1.0.0": 4 }\<close>.
\<close>

theorem proto_version_lost:
  "map_of proto_record ''__proto__'' = Some (JNum 5)
   \<and> strict_versions proto_record = [(''1.0.0'', JNum 4)]
   \<and> simple_versions proto_record = [(''1.0.0'', JNum 4)]"
  by (simp add: strict_versions_def simple_versions_def proto_record_def ends_with_def
      get_prop_def keys_eval)


section \<open>One iteration of the extraction loops\<close>

text \<open>
  The lookup of a name that \<^verbatim>\<open>Object.prototype\<close> does not define sees the own properties
  of the snapshot only; the name of the simple variant is such a name. Under a name
  that \<^verbatim>\<open>Object.prototype\<close> defines, a snapshot without the key yields a record without
  properties.
\<close>

lemma plugin_data_own:
  "pluginName \<notin> set object_prototype_keys \<Longrightarrow>
     plugin_data statsData pluginName =
       (case map_of statsData pluginName of
          None \<Rightarrow> None
        | Some found \<Rightarrow> if entry_truthy found then Some (enumerable_props found) else None)"
  by (simp add: plugin_data_def js_member_def split: option.splits)

lemma plugin_data_record:
  "map_of statsData pluginName = Some (JRecord r) \<Longrightarrow> plugin_data statsData pluginName = Some r"
  by (simp add: plugin_data_def js_member_def)

lemma plugin_data_inherited:
  "map_of statsData pluginName = None \<Longrightarrow> pluginName \<in> set object_prototype_keys \<Longrightarrow>
     plugin_data statsData pluginName = Some []"
  by (simp add: plugin_data_def js_member_def)

lemma simple_pluginName_own: "simple_pluginName \<notin> set object_prototype_keys"
  by (simp add: simple_pluginName_def object_prototype_keys_def)

lemma collect_body_Continue:
  "\<not> plugin_absent git_show name c \<Longrightarrow> \<exists>s'. collect_body name git_show c s = Continue s'"
  by (auto simp: plugin_absent_def collect_body_def Let_def split: fetch.splits option.splits)

lemma collect_body_Break:
  "plugin_absent git_show name c \<Longrightarrow>
     collect_body name git_show c s = Break (s\<lparr>examined := examined s @ [hash c]\<rparr>)"
  by (auto simp: plugin_absent_def collect_body_def Let_def split: fetch.splits option.splits)

lemma collect_body_point:
  assumes "git_show (hash c) = Parsed statsData"
    and "plugin_data statsData name = Some pluginData"
    and "valid_time (timestamp c)"
  shows "collect_body name git_show c s =
     Continue (s\<lparr>examined := examined s @ [hash c],
                 rawData := rawData s @
                   [\<lparr>hash = hash c, timestamp = timestamp c, date = date_of (timestamp c),
                     downloads = downloads_of pluginData,
                     versions = strict_versions pluginData\<rparr>]\<rparr>)"
  using assms by (simp add: collect_body_def)

lemma collect_snoc:
  assumes "\<forall>c' \<in> set pre. \<not> plugin_absent git_show name c'"
  shows "collect name git_show (pre @ [c]) =
     (case collect_body name git_show c (collect name git_show pre) of
        Continue s \<Rightarrow> s | Break s \<Rightarrow> s)"
proof -
  from assms have "\<forall>c' \<in> set pre. \<forall>s. \<exists>s'. collect_body name git_show c' s = Continue s'"
    by (blast intro: collect_body_Continue)
  from for_of_append [OF this] show ?thesis
    by (simp add: collect_def split: flow.splits)
qed

lemma collect_trace: "prefix (examined (collect name git_show cs)) (map hash cs)"
proof -
  have "prefix (examined (for_of (collect_body name git_show) cs \<lparr>rawData = [], examined = []\<rparr>))
      (examined \<lparr>rawData = [], examined = []\<rparr> @ map hash cs)"
    by (rule for_of_trace)
      (auto simp: collect_body_def Let_def split: fetch.splits option.splits if_splits)
  then show ?thesis by (simp add: collect_def)
qed

lemma simple_body_Continue:
  "\<not> plugin_absent git_show simple_pluginName c \<Longrightarrow> \<exists>s'. simple_body git_show c s = Continue s'"
  by (auto simp: plugin_absent_def simple_body_def Let_def split: fetch.splits option.splits)

lemma simple_body_Break:
  "plugin_absent git_show simple_pluginName c \<Longrightarrow>
     simple_body git_show c s = Break (s\<lparr>fetched := fetched s @ [hash c]\<rparr>)"
  by (auto simp: plugin_absent_def simple_body_def Let_def split: fetch.splits option.splits)

lemma simple_body_point:
  assumes "git_show (hash c) = Parsed statsData"
    and "plugin_data statsData simple_pluginName = Some pluginData"
    and "valid_time (timestamp c)"
  shows "simple_body git_show c s =
     Continue (simple_filter_step c pluginData (downloads_of pluginData) (date_of (timestamp c))
       (s\<lparr>fetched := fetched s @ [hash c]\<rparr>))"
  using assms by (simp add: simple_body_def)

lemma simple_loop_snoc:
  assumes "\<forall>c' \<in> set pre. \<not> plugin_absent git_show simple_pluginName c'"
  shows "simple_loop git_show (pre @ [c]) =
     (case simple_body git_show c (simple_loop git_show pre) of Continue s \<Rightarrow> s | Break s \<Rightarrow> s)"
proof -
  from assms have "\<forall>c' \<in> set pre. \<forall>s. \<exists>s'. simple_body git_show c' s = Continue s'"
    by (blast intro: simple_body_Continue)
  from for_of_append [OF this] show ?thesis
    by (simp add: simple_loop_def split: flow.splits)
qed

lemma simple_trace: "prefix (fetched (simple_loop git_show cs)) (map hash cs)"
proof -
  have "prefix (fetched (for_of (simple_body git_show) cs simple_init))
      (fetched simple_init @ map hash cs)"
    by (rule for_of_trace)
      (auto simp: simple_body_def simple_filter_step_def Let_def
        split: fetch.splits option.splits if_splits)
  then show ?thesis by (simp add: simple_loop_def simple_init_def)
qed

lemma downloads_of_falsy: "\<not> truthy (get_prop pluginData ''downloads'') \<Longrightarrow> downloads_of pluginData = 0"
  by (simp add: downloads_of_def or_zero_def)

lemma downloads_of_number:
  "get_prop pluginData ''downloads'' = JNum n \<Longrightarrow> downloads_of pluginData = n"
  by (simp add: downloads_of_def or_zero_def)

lemma downloads_of_empty: "downloads_of [] = 0"
  by (simp add: downloads_of_def or_zero_def get_prop_def)

lemma strict_versions_empty: "strict_versions [] = []"
  by (simp add: strict_versions_def js_keys_def)

text \<open>
  The sample log, evaluated.
\<close>

lemmas sample_eval =
  simple_loop_def simple_init_def simple_body_def simple_filter_step_def sample_show_def
  simple_pluginName_def valid_time_def date_of_def downloads_of_def get_prop_def or_zero_def
  simple_versions_def plugin_absent_def simple_point_def plugin_data_def js_member_def
  object_prototype_keys_def keys_eval

text \<open>
  C7. Let the snapshot of a commit have parsed and lack the plugin's key. When
  \<^verbatim>\<open>Object.prototype\<close> has no property of the plugin's name, which is so for the name of
  the simple variant, the loop stops there: the result, the list of examined commits
  included, is the same whatever commits follow; the commit itself adds no data point;
  and the commits examined are among those up to it, in their order. The loop returns
  its state as at the end of the list: the stop is not an error. When
  \<^verbatim>\<open>Object.prototype\<close> has a property of the plugin's name, the strict loop does not stop
  at the commit: if the loop reaches it and its date can be formatted, the commit adds a
  point with 0 downloads and no versions.
\<close>

theorem absence_stops_extraction:
  assumes parsed: "git_show (hash c) = Parsed statsData"
  shows "(map_of statsData name = None \<and> name \<notin> set object_prototype_keys \<longrightarrow>
      collect name git_show (pre @ c # rest) = collect name git_show (pre @ [c])
      \<and> rawData (collect name git_show (pre @ [c])) = rawData (collect name git_show pre)
      \<and> prefix (examined (collect name git_show (pre @ c # rest))) (map hash (pre @ [c])))
   \<and> (map_of statsData simple_pluginName = None \<longrightarrow>
      simple_loop git_show (pre @ c # rest) = simple_loop git_show (pre @ [c])
      \<and> history (simple_loop git_show (pre @ [c])) = history (simple_loop git_show pre)
      \<and> prefix (fetched (simple_loop git_show (pre @ c # rest))) (map hash (pre @ [c])))
   \<and> (map_of statsData name = None \<and> name \<in> set object_prototype_keys
        \<and> (\<forall>c' \<in> set pre. \<not> plugin_absent git_show name c') \<and> valid_time (timestamp c) \<longrightarrow>
      \<not> plugin_absent git_show name c
      \<and> rawData (collect name git_show (pre @ [c])) =
          rawData (collect name git_show pre) @
            [\<lparr>hash = hash c, timestamp = timestamp c, date = date_of (timestamp c),
              downloads = 0, versions = []\<rparr>])"
proof (intro conjI impI)
  assume "map_of statsData name = None \<and> name \<notin> set object_prototype_keys"
  with parsed have a: "plugin_absent git_show name c"
    by (simp add: plugin_absent_def plugin_data_own)
  then have brk: "\<forall>s. \<exists>s'. collect_body name git_show c s = Break s'"
    by (simp add: collect_body_Break)
  show cut: "collect name git_show (pre @ c # rest) = collect name git_show (pre @ [c])"
    unfolding collect_def
    by (rule for_of_break [of "collect_body name git_show" c, OF brk])
  show "rawData (collect name git_show (pre @ [c])) = rawData (collect name git_show pre)"
    unfolding collect_def
    by (rule for_of_snoc_break) (simp add: collect_body_Break [OF a])
  show "prefix (examined (collect name git_show (pre @ c # rest))) (map hash (pre @ [c]))"
    unfolding cut by (rule collect_trace)
next
  assume "map_of statsData simple_pluginName = None"
  with parsed have a: "plugin_absent git_show simple_pluginName c"
    by (simp add: plugin_absent_def plugin_data_own [OF simple_pluginName_own])
  then have brk: "\<forall>s. \<exists>s'. simple_body git_show c s = Break s'"
    by (simp add: simple_body_Break)
  show cut: "simple_loop git_show (pre @ c # rest) = simple_loop git_show (pre @ [c])"
    unfolding simple_loop_def
    by (rule for_of_break [of "simple_body git_show" c, OF brk])
  show "history (simple_loop git_show (pre @ [c])) = history (simple_loop git_show pre)"
    unfolding simple_loop_def
    by (rule for_of_snoc_break) (simp add: simple_body_Break [OF a])
  show "prefix (fetched (simple_loop git_show (pre @ c # rest))) (map hash (pre @ [c]))"
    unfolding cut by (rule simple_trace)
next
  assume a: "map_of statsData name = None \<and> name \<in> set object_prototype_keys
        \<and> (\<forall>c' \<in> set pre. \<not> plugin_absent git_show name c') \<and> valid_time (timestamp c)"
  then have present: "plugin_data statsData name = Some []"
    by (simp add: plugin_data_inherited)
  from a have reach: "\<forall>c' \<in> set pre. \<not> plugin_absent git_show name c'"
    and time: "valid_time (timestamp c)" by simp_all
  from parsed present show "\<not> plugin_absent git_show name c"
    by (simp add: plugin_absent_def)
  show "rawData (collect name git_show (pre @ [c])) =
          rawData (collect name git_show pre) @
            [\<lparr>hash = hash c, timestamp = timestamp c, date = date_of (timestamp c),
              downloads = 0, versions = []\<rparr>]"
    using collect_snoc [OF reach, of c]
      collect_body_point [of git_show c statsData name "[]" "collect name git_show pre",
        OF parsed present time]
    by (simp add: downloads_of_empty strict_versions_empty)
qed

text \<open>
  In the sample log the fifth commit lacks the plugin: the sixth is never examined and
  four points are collected. For the plugin name \<^verbatim>\<open>toString\<close> the fifth commit adds a
  point.
\<close>

theorem absence_stops_extraction_witness:
  "collect ''chatgpt-md'' sample_show (map parse_line sample_log) =
       collect ''chatgpt-md'' sample_show (map parse_line (take 5 sample_log))
   \<and> map date (rawData (collect ''chatgpt-md'' sample_show (map parse_line sample_log))) = [3, 2, 2, 1]
   \<and> examined (collect ''chatgpt-md'' sample_show (map parse_line sample_log)) =
       [''c1'', ''c2'', ''c3'', ''c4'', ''c5'']
   \<and> simple_loop sample_show (map parse_line sample_log) =
       simple_loop sample_show (map parse_line (take 5 sample_log))
   \<and> fetched (simple_loop sample_show (map parse_line sample_log)) =
       [''c1'', ''c2'', ''c3'', ''c4'', ''c5'']
   \<and> rawData (collect ''toString'' sample_show (map parse_line (take 5 sample_log))) =
       rawData (collect ''toString'' sample_show (map parse_line (take 4 sample_log))) @
         [\<lparr>hash = ''c5'', timestamp = 3600000, date = 0, downloads = 0, versions = []\<rparr>]"
  using absence_stops_extraction [of sample_show "parse_line (''c5'', 3600)"
      "[(''another-plugin'', JRecord [(''downloads'', JNum 7)])]" "''chatgpt-md''"
      "map parse_line (take 4 sample_log)" "[parse_line (''c6'', 0)]"]
    absence_stops_extraction [of sample_show "parse_line (''c5'', 3600)"
      "[(''another-plugin'', JRecord [(''downloads'', JNum 7)])]" "''toString''"
      "map parse_line (take 4 sample_log)" "[]"]
  by (simp add: sample_log_def parse_line_def sample_eval collect_def collect_body_def
      strict_versions_def ends_with_def)

text \<open>
  C7, the input on which the strict script does not stop. No snapshot of the sample log
  has the key \<^verbatim>\<open>constructor\<close>, yet for the plugin name \<^verbatim>\<open>constructor\<close> the lookup
  \<^verbatim>\<open>statsData[pluginName]\<close> finds the function that every object inherits: the loop is
  never left, all six commits are examined, and every commit whose snapshot parsed
  yields a point with 0 downloads.
\<close>

theorem inherited_name_not_absent:
  "(case sample_show ''c1'' of Threw \<Rightarrow> False
    | Parsed statsData \<Rightarrow> map_of statsData ''constructor'' = None)
   \<and> examined (collect ''constructor'' sample_show (map parse_line sample_log)) =
       [''c1'', ''c2'', ''c3'', ''c4'', ''c5'', ''c6'']
   \<and> map hash (rawData (collect ''constructor'' sample_show (map parse_line sample_log))) =
       [''c1'', ''c2'', ''c3'', ''c4'', ''c5'', ''c6'']
   \<and> map downloads (rawData (collect ''constructor'' sample_show (map parse_line sample_log))) =
       [0, 0, 0, 0, 0, 0]"
  by (simp add: sample_log_def parse_line_def sample_eval collect_def collect_body_def
      strict_versions_def ends_with_def)

text \<open>
  C10, in the form the scripts satisfy. A record whose \<^verbatim>\<open>downloads\<close> is absent or falsy
  (\<open>get_prop\<close> gives \<open>JUndefined\<close> for an absent key) counts 0 downloads. Let the loop
  reach a commit whose snapshot parsed and has such a record for the plugin, and whose
  date can be formatted. The strict variant pushes the point with 0 downloads. The
  simple variant hands the point with 0 downloads to its duplicate-date check and to
  its anomaly filter, as it does with every point: the point is appended if and only if
  no entry has its day and it is the first entry or the last valid count is not
  negative; otherwise the commit adds nothing.
\<close>

theorem missing_downloads_count_as_zero:
  assumes parsed: "git_show (hash c) = Parsed statsData"
    and falsy: "\<not> truthy (get_prop pluginData ''downloads'')"
    and time: "valid_time (timestamp c)"
  shows "downloads_of pluginData = 0
       \<and> (plugin_data statsData name = Some pluginData
          \<and> (\<forall>c' \<in> set pre. \<not> plugin_absent git_show name c')
        \<longrightarrow> rawData (collect name git_show (pre @ [c])) =
              rawData (collect name git_show pre) @
                [\<lparr>hash = hash c, timestamp = timestamp c, date = date_of (timestamp c),
                  downloads = 0, versions = strict_versions pluginData\<rparr>])
       \<and> (plugin_data statsData simple_pluginName = Some pluginData
          \<and> (\<forall>c' \<in> set pre. \<not> plugin_absent git_show simple_pluginName c')
        \<longrightarrow> (let before = simple_loop git_show pre;
                 after = simple_loop git_show (pre @ [c]);
                 e = \<lparr>entry_date = date_of (timestamp c), entry_hash = hash c,
                       entry_downloads = 0, entry_versions = simple_versions pluginData\<rparr>
             in simple_point git_show c = Some e
              \<and> (history after = history before @ [e]
                 \<longleftrightarrow> \<not> list_ex (\<lambda>e'. entry_date e' = date_of (timestamp c)) (history before)
                     \<and> (\<not> foundFirstEntry before \<or> 0 \<le> lastValidDownloads before))
              \<and> (history after = history before @ [e] \<or> history after = history before)))"
proof (intro conjI impI)
  show "downloads_of pluginData = 0"
    by (rule downloads_of_falsy [OF falsy])
next
  assume a: "plugin_data statsData name = Some pluginData
          \<and> (\<forall>c' \<in> set pre. \<not> plugin_absent git_show name c')"
  then have reach: "\<forall>c' \<in> set pre. \<not> plugin_absent git_show name c'"
    and present: "plugin_data statsData name = Some pluginData"
    by simp_all
  show "rawData (collect name git_show (pre @ [c])) =
              rawData (collect name git_show pre) @
                [\<lparr>hash = hash c, timestamp = timestamp c, date = date_of (timestamp c),
                  downloads = 0, versions = strict_versions pluginData\<rparr>]"
    using collect_snoc [OF reach, of c]
      collect_body_point [of git_show c statsData name pluginData "collect name git_show pre",
        OF parsed present time]
    by (simp add: downloads_of_falsy [OF falsy])
next
  let ?before = "simple_loop git_show pre"
  let ?e = "\<lparr>entry_date = date_of (timestamp c), entry_hash = hash c,
             entry_downloads = 0, entry_versions = simple_versions pluginData\<rparr>"
  assume a: "plugin_data statsData simple_pluginName = Some pluginData
          \<and> (\<forall>c' \<in> set pre. \<not> plugin_absent git_show simple_pluginName c')"
  then have reach: "\<forall>c' \<in> set pre. \<not> plugin_absent git_show simple_pluginName c'"
    and present: "plugin_data statsData simple_pluginName = Some pluginData"
    by simp_all
  have point: "simple_point git_show c = Some ?e"
    using parsed present time by (simp add: simple_point_def downloads_of_falsy [OF falsy])
  have after: "simple_loop git_show (pre @ [c]) =
              simple_filter_step c pluginData 0 (date_of (timestamp c))
                (?before\<lparr>fetched := fetched ?before @ [hash c]\<rparr>)"
    using simple_loop_snoc [OF reach, of c]
      simple_body_point [of git_show c statsData pluginData ?before, OF parsed present time]
    by (simp add: downloads_of_falsy [OF falsy])
  have kept: "history (simple_loop git_show (pre @ [c])) = history ?before @ [?e]
      \<longleftrightarrow> \<not> list_ex (\<lambda>e'. entry_date e' = date_of (timestamp c)) (history ?before)
          \<and> (\<not> foundFirstEntry ?before \<or> 0 \<le> lastValidDownloads ?before)"
    unfolding after by (auto simp: simple_filter_step_def)
  have either: "history (simple_loop git_show (pre @ [c])) = history ?before @ [?e]
      \<or> history (simple_loop git_show (pre @ [c])) = history ?before"
    unfolding after by (simp add: simple_filter_step_def)
  from point kept either
  show "let before = simple_loop git_show pre;
            after = simple_loop git_show (pre @ [c]);
            e = \<lparr>entry_date = date_of (timestamp c), entry_hash = hash c,
                  entry_downloads = 0, entry_versions = simple_versions pluginData\<rparr>
        in simple_point git_show c = Some e
         \<and> (history after = history before @ [e]
            \<longleftrightarrow> \<not> list_ex (\<lambda>e'. entry_date e' = date_of (timestamp c)) (history before)
                \<and> (\<not> foundFirstEntry before \<or> 0 \<le> lastValidDownloads before))
         \<and> (history after = history before @ [e] \<or> history after = history before)"
    unfolding Let_def by blast
qed

text \<open>
  The fourth commit of the sample log has a record without \<^verbatim>\<open>downloads\<close>, on a day of
  its own.
\<close>

theorem missing_downloads_count_as_zero_witness:
  "rawData (collect ''chatgpt-md'' sample_show (map parse_line (take 3 sample_log) @ [parse_line (''c4'', 86400)])) =
     rawData (collect ''chatgpt-md'' sample_show (map parse_line (take 3 sample_log))) @
       [\<lparr>hash = ''c4'', timestamp = 86400000, date = 1, downloads = 0, versions = []\<rparr>]
   \<and> history (simple_loop sample_show (map parse_line (take 3 sample_log) @ [parse_line (''c4'', 86400)])) =
     history (simple_loop sample_show (map parse_line (take 3 sample_log))) @
       [\<lparr>entry_date = 1, entry_hash = ''c4'', entry_downloads = 0, entry_versions = []\<rparr>]"
  using missing_downloads_count_as_zero [of sample_show "parse_line (''c4'', 86400)"
      "[(''chatgpt-md'', JRecord [(''updated'', JStr ''x'')])]" "[(''updated'', JStr ''x'')]"
      "''chatgpt-md''" "map parse_line (take 3 sample_log)"]
  by (simp add: sample_log_def parse_line_def sample_eval collect_def collect_body_def
      strict_versions_def ends_with_def Let_def)

text \<open>
  Against C10 as the specification words it (the commit still produces a data point).
  In the simple variant the loop reaches the second commit of this log, its snapshot
  parsed, the plugin is there and the record has no \<^verbatim>\<open>downloads\<close>; the point of the
  commit counts 0 downloads, and the commit is skipped because the first commit is of
  the same day.
\<close>

theorem missing_count_point_skipped:
  "simple_point sample_show (parse_line (''c4'', 259200)) =
     Some \<lparr>entry_date = 3, entry_hash = ''c4'', entry_downloads = 0, entry_versions = []\<rparr>
   \<and> history (simple_loop sample_show (map parse_line missing_count_log)) =
       history (simple_loop sample_show (map parse_line (take 1 missing_count_log)))
   \<and> simple_extract sample_show missing_count_log =
       [\<lparr>entry_date = 3, entry_hash = ''c1'', entry_downloads = 10,
          entry_versions = [(''1.0.0'', JNum 10)]\<rparr>]"
  by (simp add: missing_count_log_def parse_line_def sample_eval simple_extract_def)


section \<open>Simple variant: the sequential filter and the days\<close>

lemma sorted_rev_snoc:
  assumes "xs \<noteq> []" "sorted (rev (map f xs))" "f e \<le> f (last xs)"
  shows "sorted (rev (map f (xs @ [e])))"
proof -
  from assms(1) obtain ys l where xs: "xs = ys @ [l]"
    by (cases xs rule: rev_cases) auto
  with assms(2,3) show ?thesis by (auto simp: xs)
qed

lemma simple_filter_step_inv:
  assumes "simple_inv st"
  shows "simple_inv (simple_filter_step c pluginData d day st)"
proof -
  let ?e = "\<lparr>entry_date = day, entry_hash = hash c, entry_downloads = d,
             entry_versions = simple_versions pluginData\<rparr>"
  consider (dup) "list_ex (\<lambda>e. entry_date e = day) (history st)"
    | (first) "\<not> list_ex (\<lambda>e. entry_date e = day) (history st)" "\<not> foundFirstEntry st"
    | (higher) "\<not> list_ex (\<lambda>e. entry_date e = day) (history st)" "foundFirstEntry st"
        "d > lastValidDownloads st"
    | (accept) "\<not> list_ex (\<lambda>e. entry_date e = day) (history st)" "foundFirstEntry st"
        "\<not> d > lastValidDownloads st"
    by blast
  then show ?thesis
  proof cases
    case dup
    with assms show ?thesis by (simp add: simple_filter_step_def)
  next
    case first
    with assms show ?thesis by (simp add: simple_filter_step_def simple_inv_def)
  next
    case higher
    with assms show ?thesis by (simp add: simple_filter_step_def)
  next
    case accept
    from assms accept have ne: "history st \<noteq> []"
      and lv: "lastValidDownloads st = entry_downloads (last (history st))"
      and srt: "sorted (rev (map entry_downloads (history st)))"
      and dst: "distinct (map entry_date (history st))"
      by (simp_all add: simple_inv_def)
    from accept lv have "entry_downloads ?e \<le> entry_downloads (last (history st))"
      by simp
    from sorted_rev_snoc [OF ne srt this]
    have "sorted (rev (map entry_downloads (history st @ [?e])))" .
    moreover from accept(1) dst have "distinct (map entry_date (history st @ [?e]))"
      by (auto simp: list_ex_iff)
    ultimately show ?thesis
      using accept by (simp add: simple_filter_step_def simple_inv_def)
  qed
qed

lemma simple_inv_fetched: "simple_inv (st\<lparr>fetched := f\<rparr>) = simple_inv st"
  by (simp add: simple_inv_def)

lemma simple_body_inv:
  assumes "simple_inv st" "simple_body git_show c st = Continue s' \<or> simple_body git_show c st = Break s'"
  shows "simple_inv s'"
  using assms simple_filter_step_inv [of "st\<lparr>fetched := fetched st @ [hash c]\<rparr>"]
  by (auto simp: simple_body_def Let_def simple_inv_fetched split: fetch.splits option.splits if_splits)

lemma simple_loop_inv: "simple_inv (simple_loop git_show commits)"
  unfolding simple_loop_def
proof (rule for_of_invariant [where I = simple_inv])
  show "simple_inv simple_init"
    by (simp add: simple_inv_def simple_init_def)
qed (blast intro: simple_body_inv)+

lemma simple_found_iff:
  "foundFirstEntry (simple_loop git_show commits) \<longleftrightarrow> history (simple_loop git_show commits) \<noteq> []"
  using simple_loop_inv [of git_show commits] by (auto simp: simple_inv_def split: if_splits)

lemma map_filter_app:
  "List.map_filter f (xs @ ys) = List.map_filter f xs @ List.map_filter f ys"
  by (simp add: List.map_filter_def)

lemma simple_filter_step_history:
  "history (simple_filter_step c pluginData d day st) = history st
   \<or> history (simple_filter_step c pluginData d day st) =
       history st @ [\<lparr>entry_date = day, entry_hash = hash c, entry_downloads = d,
                       entry_versions = simple_versions pluginData\<rparr>]"
  by (simp add: simple_filter_step_def)

lemma simple_body_history:
  assumes "simple_body git_show c s = Continue s' \<or> simple_body git_show c s = Break s'"
  shows "history s' = history s
     \<or> (\<exists>e. simple_point git_show c = Some e \<and> history s' = history s @ [e])"
proof (cases "simple_point git_show c")
  case None
  with assms show ?thesis
    by (auto simp: simple_body_def simple_point_def Let_def
        split: fetch.splits option.splits if_splits)
next
  case (Some e)
  then obtain statsData pluginData where p: "git_show (hash c) = Parsed statsData"
    "plugin_data statsData simple_pluginName = Some pluginData" "valid_time (timestamp c)"
    by (auto simp: simple_point_def split: fetch.splits option.splits if_splits)
  with Some have e: "e = \<lparr>entry_date = date_of (timestamp c), entry_hash = hash c,
      entry_downloads = downloads_of pluginData, entry_versions = simple_versions pluginData\<rparr>"
    by (simp add: simple_point_def)
  from assms simple_body_point [of git_show c statsData pluginData s, OF p]
  have "s' = simple_filter_step c pluginData (downloads_of pluginData) (date_of (timestamp c))
       (s\<lparr>fetched := fetched s @ [hash c]\<rparr>)"
    by simp
  with simple_filter_step_history [of c pluginData "downloads_of pluginData"
      "date_of (timestamp c)" "s\<lparr>fetched := fetched s @ [hash c]\<rparr>"] Some e
  show ?thesis by auto
qed

lemma simple_history_subseq:
  "subseq (history (for_of (simple_body git_show) cs st))
     (history st @ List.map_filter (simple_point git_show) cs)"
proof (induction cs arbitrary: st)
  case Nil
  then show ?case by simp
next
  case (Cons c cs)
  obtain s' where s': "simple_body git_show c st = Continue s' \<or> simple_body git_show c st = Break s'"
    by (cases "simple_body git_show c st") auto
  from simple_body_history [OF s']
  have emb: "subseq (history s' @ List.map_filter (simple_point git_show) cs)
      (history st @ List.map_filter (simple_point git_show) (c # cs))"
    by (auto simp: subseq_append' split: option.splits)
  from s' show ?case
  proof
    assume "simple_body git_show c st = Continue s'"
    with Cons.IH [of s'] emb show ?thesis
      by (auto intro: subseq_order.trans)
  next
    assume "simple_body git_show c st = Break s'"
    moreover have "subseq (history s') (history s' @ List.map_filter (simple_point git_show) cs)"
      by (rule subseq_rev_drop_many) simp
    ultimately show ?thesis using emb
      by (auto intro: subseq_order.trans)
  qed
qed

lemma simple_loop_subseq:
  "subseq (history (simple_loop git_show commits))
     (List.map_filter (simple_point git_show) commits)"
  using simple_history_subseq [of git_show commits simple_init]
  by (simp add: simple_loop_def simple_init_def)

lemma simple_history_empty_iff:
  assumes "\<forall>c' \<in> set pre. \<not> plugin_absent git_show simple_pluginName c'"
  shows "history (simple_loop git_show pre) = [] \<longleftrightarrow>
     List.map_filter (simple_point git_show) pre = []"
  using assms
proof (induction pre rule: rev_induct)
  case Nil
  show ?case by (simp add: simple_loop_def simple_init_def)
next
  case (snoc c pre)
  let ?before = "simple_loop git_show pre"
  from snoc.prems have reach: "\<forall>c' \<in> set pre. \<not> plugin_absent git_show simple_pluginName c'"
    and c: "\<not> plugin_absent git_show simple_pluginName c"
    by simp_all
  from simple_body_Continue [OF c] obtain s' where s': "simple_body git_show c ?before = Continue s'"
    by blast
  with simple_loop_snoc [OF reach, of c] have after: "simple_loop git_show (pre @ [c]) = s'"
    by simp
  show ?case
  proof (cases "simple_point git_show c")
    case None
    with simple_body_history [of git_show c ?before s'] s' have "history s' = history ?before"
      by auto
    with None snoc.IH [OF reach] after show ?thesis
      by (simp add: map_filter_app)
  next
    case (Some e)
    then obtain statsData pluginData where p: "git_show (hash c) = Parsed statsData"
      "plugin_data statsData simple_pluginName = Some pluginData" "valid_time (timestamp c)"
      by (auto simp: simple_point_def split: fetch.splits option.splits if_splits)
    from s' simple_body_point [of git_show c statsData pluginData ?before, OF p]
    have "s' = simple_filter_step c pluginData (downloads_of pluginData) (date_of (timestamp c))
        (?before\<lparr>fetched := fetched ?before @ [hash c]\<rparr>)"
      by simp
    with simple_found_iff [of git_show pre] have "history s' \<noteq> []"
      by (auto simp: simple_filter_step_def)
    with Some after show ?thesis
      by (simp add: map_filter_app)
  qed
qed

text \<open>
  C2, in the form the script satisfies. Let the loop reach a commit that yields a point
  \<open>e\<close>. \<^verbatim>\<open>foundFirstEntry\<close> is set exactly when an earlier commit yielded a point. A
  point whose day already has an entry is skipped before the filter sees it, whatever
  its count. Of the other points the first is accepted whatever its count, and a later
  one is accepted if and only if its count is at most \<^verbatim>\<open>lastValidDownloads\<close>. An
  accepted point goes to the end of \<^verbatim>\<open>history\<close> unchanged and its count becomes
  \<^verbatim>\<open>lastValidDownloads\<close>; a point that is not accepted changes nothing. For every list
  of commits, \<^verbatim>\<open>history\<close> is a subsequence of the points of the commits: the retained
  points keep their order and their values.
\<close>

theorem sequential_policy:
  "((\<forall>c' \<in> set pre. \<not> plugin_absent git_show simple_pluginName c')
      \<and> simple_point git_show c = Some e
    \<longrightarrow> (let before = simple_loop git_show pre;
             after = simple_loop git_show (pre @ [c]);
             occupied = list_ex (\<lambda>e'. entry_date e' = entry_date e) (history before)
         in (foundFirstEntry before \<longleftrightarrow> List.map_filter (simple_point git_show) pre \<noteq> [])
          \<and> (\<not> foundFirstEntry before \<longrightarrow> \<not> occupied)
          \<and> (if \<not> occupied
                 \<and> (\<not> foundFirstEntry before \<or> entry_downloads e \<le> lastValidDownloads before)
              then history after = history before @ [e]
                 \<and> lastValidDownloads after = entry_downloads e
                 \<and> foundFirstEntry after
              else history after = history before
                 \<and> lastValidDownloads after = lastValidDownloads before
                 \<and> foundFirstEntry after = foundFirstEntry before)))
   \<and> subseq (history (simple_loop git_show commits))
        (List.map_filter (simple_point git_show) commits)"
proof (intro conjI impI)
  show "subseq (history (simple_loop git_show commits))
        (List.map_filter (simple_point git_show) commits)"
    by (rule simple_loop_subseq)
next
  let ?before = "simple_loop git_show pre"
  assume a: "(\<forall>c' \<in> set pre. \<not> plugin_absent git_show simple_pluginName c')
      \<and> simple_point git_show c = Some e"
  then obtain statsData pluginData where p: "git_show (hash c) = Parsed statsData"
    "plugin_data statsData simple_pluginName = Some pluginData" "valid_time (timestamp c)"
    by (auto simp: simple_point_def split: fetch.splits option.splits if_splits)
  with a have e: "e = \<lparr>entry_date = date_of (timestamp c), entry_hash = hash c,
      entry_downloads = downloads_of pluginData, entry_versions = simple_versions pluginData\<rparr>"
    by (auto simp: simple_point_def)
  from a have reach: "\<forall>c' \<in> set pre. \<not> plugin_absent git_show simple_pluginName c'"
    by simp
  have after: "simple_loop git_show (pre @ [c]) =
      simple_filter_step c pluginData (downloads_of pluginData) (date_of (timestamp c))
        (?before\<lparr>fetched := fetched ?before @ [hash c]\<rparr>)"
    using simple_loop_snoc [OF reach, of c]
      simple_body_point [of git_show c statsData pluginData ?before, OF p]
    by simp
  have first: "foundFirstEntry ?before \<longleftrightarrow> List.map_filter (simple_point git_show) pre \<noteq> []"
    using simple_found_iff [of git_show pre] simple_history_empty_iff [OF reach] by simp
  have empty: "\<not> foundFirstEntry ?before \<longrightarrow>
      \<not> list_ex (\<lambda>e'. entry_date e' = entry_date e) (history ?before)"
    using simple_found_iff [of git_show pre] by simp
  have step: "if \<not> list_ex (\<lambda>e'. entry_date e' = entry_date e) (history ?before)
         \<and> (\<not> foundFirstEntry ?before \<or> entry_downloads e \<le> lastValidDownloads ?before)
      then history (simple_loop git_show (pre @ [c])) = history ?before @ [e]
         \<and> lastValidDownloads (simple_loop git_show (pre @ [c])) = entry_downloads e
         \<and> foundFirstEntry (simple_loop git_show (pre @ [c]))
      else history (simple_loop git_show (pre @ [c])) = history ?before
         \<and> lastValidDownloads (simple_loop git_show (pre @ [c])) = lastValidDownloads ?before
         \<and> foundFirstEntry (simple_loop git_show (pre @ [c])) = foundFirstEntry ?before"
    unfolding after by (auto simp: simple_filter_step_def e)
  from first empty step
  show "let before = simple_loop git_show pre;
            after = simple_loop git_show (pre @ [c]);
            occupied = list_ex (\<lambda>e'. entry_date e' = entry_date e) (history before)
        in (foundFirstEntry before \<longleftrightarrow> List.map_filter (simple_point git_show) pre \<noteq> [])
         \<and> (\<not> foundFirstEntry before \<longrightarrow> \<not> occupied)
         \<and> (if \<not> occupied
                \<and> (\<not> foundFirstEntry before \<or> entry_downloads e \<le> lastValidDownloads before)
             then history after = history before @ [e]
                \<and> lastValidDownloads after = entry_downloads e
                \<and> foundFirstEntry after
             else history after = history before
                \<and> lastValidDownloads after = lastValidDownloads before
                \<and> foundFirstEntry after = foundFirstEntry before)"
    unfolding Let_def by blast
qed

text \<open>
  In the sample log the third commit (5 downloads) comes after 10 was accepted and 20
  was rejected.
\<close>

theorem sequential_policy_witness:
  "history (simple_loop sample_show (map parse_line (take 2 sample_log) @ [parse_line (''c3'', 172800)])) =
     history (simple_loop sample_show (map parse_line (take 2 sample_log)))
       @ [\<lparr>entry_date = 2, entry_hash = ''c3'', entry_downloads = 5, entry_versions = []\<rparr>]
   \<and> lastValidDownloads (simple_loop sample_show (map parse_line (take 2 sample_log))) = 10
   \<and> lastValidDownloads
       (simple_loop sample_show (map parse_line (take 2 sample_log) @ [parse_line (''c3'', 172800)])) = 5"
  using sequential_policy [of "map parse_line (take 2 sample_log)" sample_show
      "parse_line (''c3'', 172800)"
      "\<lparr>entry_date = 2, entry_hash = ''c3'', entry_downloads = 5, entry_versions = []\<rparr>" "[]"]
  by (simp add: sample_log_def parse_line_def sample_eval Let_def)

text \<open>
  Against C2 as the specification words it (every later candidate is accepted if and
  only if its count is at most \<^verbatim>\<open>lastValidDownloads\<close>). The points of the three commits
  are 10 and then 5 downloads on day 3, and 7 downloads on day 2. After the first point
  \<^verbatim>\<open>lastValidDownloads\<close> is 10; the second point has 5 downloads and is not accepted,
  its day being taken; \<^verbatim>\<open>lastValidDownloads\<close> stays 10, and the third point, which the
  worded policy rejects (7 > 5), is accepted.
\<close>

theorem occupied_day_not_accepted:
  "List.map_filter (simple_point sample_show) (map parse_line occupied_day_log) =
     [\<lparr>entry_date = 3, entry_hash = ''c1'', entry_downloads = 10,
        entry_versions = [(''1.0.0'', JNum 10)]\<rparr>,
      \<lparr>entry_date = 3, entry_hash = ''c3'', entry_downloads = 5, entry_versions = []\<rparr>,
      \<lparr>entry_date = 2, entry_hash = ''c7'', entry_downloads = 7, entry_versions = []\<rparr>]
   \<and> lastValidDownloads (simple_loop sample_show (map parse_line (take 1 occupied_day_log))) = 10
   \<and> history (simple_loop sample_show (map parse_line occupied_day_log)) =
     [\<lparr>entry_date = 3, entry_hash = ''c1'', entry_downloads = 10,
        entry_versions = [(''1.0.0'', JNum 10)]\<rparr>,
      \<lparr>entry_date = 2, entry_hash = ''c7'', entry_downloads = 7, entry_versions = []\<rparr>]"
  by (simp add: occupied_day_log_def parse_line_def sample_eval)

lemma distinct_dates_sorted:
  "distinct (map entry_date (sort_key entry_date h)) = distinct (map entry_date h)"
  by (simp add: distinct_map)

text \<open>
  C6, in the form the script satisfies. No two entries of the written history have the
  same calendar day, and the entries are points of the commits, unchanged and in
  processing order. For a commit that the loop reaches and that yields a point: when an
  entry already has the day of the point, the point is skipped entirely
  (\<^verbatim>\<open>history\<close>, \<^verbatim>\<open>lastValidDownloads\<close> and \<^verbatim>\<open>foundFirstEntry\<close> stay as they are); and
  the point is kept if and only if no entry has its day and the anomaly filter accepts
  it. The duplicate check reads the entries kept so far, so the entry kept for a day is
  the first point of that day that the filter does not reject, which need not be the
  first point of that day.
\<close>

theorem day_deduplication:
  "distinct (map entry_date (simple_extract git_show lines))
   \<and> subseq (history (simple_loop git_show commits))
        (List.map_filter (simple_point git_show) commits)
   \<and> ((\<forall>c' \<in> set pre. \<not> plugin_absent git_show simple_pluginName c')
        \<and> simple_point git_show c = Some e
      \<longrightarrow> (list_ex (\<lambda>e'. entry_date e' = entry_date e) (history (simple_loop git_show pre))
           \<longrightarrow> history (simple_loop git_show (pre @ [c])) = history (simple_loop git_show pre)
             \<and> lastValidDownloads (simple_loop git_show (pre @ [c])) =
                 lastValidDownloads (simple_loop git_show pre)
             \<and> foundFirstEntry (simple_loop git_show (pre @ [c])) =
                 foundFirstEntry (simple_loop git_show pre))
        \<and> (history (simple_loop git_show (pre @ [c])) = history (simple_loop git_show pre) @ [e]
           \<longleftrightarrow> \<not> list_ex (\<lambda>e'. entry_date e' = entry_date e)
                    (history (simple_loop git_show pre))
               \<and> (\<not> foundFirstEntry (simple_loop git_show pre)
                  \<or> entry_downloads e \<le> lastValidDownloads (simple_loop git_show pre))))"
proof (intro conjI impI)
  show "distinct (map entry_date (simple_extract git_show lines))"
    using simple_loop_inv [of git_show "map parse_line lines"]
    by (simp add: simple_extract_def distinct_dates_sorted simple_inv_def)
next
  show "subseq (history (simple_loop git_show commits))
        (List.map_filter (simple_point git_show) commits)"
    by (rule simple_loop_subseq)
next
  let ?before = "simple_loop git_show pre"
  assume a: "(\<forall>c' \<in> set pre. \<not> plugin_absent git_show simple_pluginName c')
        \<and> simple_point git_show c = Some e"
  then obtain statsData pluginData where p: "git_show (hash c) = Parsed statsData"
    "plugin_data statsData simple_pluginName = Some pluginData" "valid_time (timestamp c)"
    by (auto simp: simple_point_def split: fetch.splits option.splits if_splits)
  with a have e: "e = \<lparr>entry_date = date_of (timestamp c), entry_hash = hash c,
      entry_downloads = downloads_of pluginData, entry_versions = simple_versions pluginData\<rparr>"
    by (auto simp: simple_point_def)
  from a have reach: "\<forall>c' \<in> set pre. \<not> plugin_absent git_show simple_pluginName c'"
    by simp
  have after: "simple_loop git_show (pre @ [c]) =
      simple_filter_step c pluginData (downloads_of pluginData) (date_of (timestamp c))
        (?before\<lparr>fetched := fetched ?before @ [hash c]\<rparr>)"
    using simple_loop_snoc [OF reach, of c]
      simple_body_point [of git_show c statsData pluginData ?before, OF p]
    by simp
  show "history (simple_loop git_show (pre @ [c])) = history ?before @ [e]
      \<longleftrightarrow> \<not> list_ex (\<lambda>e'. entry_date e' = entry_date e) (history ?before)
          \<and> (\<not> foundFirstEntry ?before \<or> entry_downloads e \<le> lastValidDownloads ?before)"
    unfolding after by (auto simp: simple_filter_step_def e)
  assume "list_ex (\<lambda>e'. entry_date e' = entry_date e) (history ?before)"
  then show "history (simple_loop git_show (pre @ [c])) = history ?before"
    "lastValidDownloads (simple_loop git_show (pre @ [c])) = lastValidDownloads ?before"
    "foundFirstEntry (simple_loop git_show (pre @ [c])) = foundFirstEntry ?before"
    unfolding after by (simp_all add: simple_filter_step_def e)
qed

text \<open>
  With two commits of the same day, the second is skipped as a duplicate.
\<close>

theorem day_deduplication_witness:
  "distinct (map entry_date (simple_extract sample_show sample_log))
   \<and> history (simple_loop sample_show (map parse_line repeat_day_log)) =
       history (simple_loop sample_show (map parse_line (take 1 repeat_day_log)))
   \<and> history (simple_loop sample_show (map parse_line repeat_day_log)) =
       [\<lparr>entry_date = 3, entry_hash = ''c1'', entry_downloads = 10,
          entry_versions = [(''1.0.0'', JNum 10)]\<rparr>]"
  using day_deduplication [of sample_show sample_log "[]"
      "map parse_line (take 1 repeat_day_log)" "parse_line (''c3'', 259200)"
      "\<lparr>entry_date = 3, entry_hash = ''c3'', entry_downloads = 5, entry_versions = []\<rparr>"]
  by (simp add: repeat_day_log_def parse_line_def sample_eval)

text \<open>
  Against C6 as the specification words it (the first point of a day is the one kept).
  The points of the three commits are 10 downloads on day 3, then
  20 and 5 on day 2. The first point of day 2 is rejected as an anomaly (20 > 10) and
  the second point of that day is kept.
\<close>

theorem first_of_day_not_kept:
  "List.map_filter (simple_point sample_show) (map parse_line same_day_log) =
     [\<lparr>entry_date = 3, entry_hash = ''c1'', entry_downloads = 10,
        entry_versions = [(''1.0.0'', JNum 10)]\<rparr>,
      \<lparr>entry_date = 2, entry_hash = ''c2'', entry_downloads = 20, entry_versions = []\<rparr>,
      \<lparr>entry_date = 2, entry_hash = ''c3'', entry_downloads = 5, entry_versions = []\<rparr>]
   \<and> simple_extract sample_show same_day_log =
     [\<lparr>entry_date = 2, entry_hash = ''c3'', entry_downloads = 5, entry_versions = []\<rparr>,
      \<lparr>entry_date = 3, entry_hash = ''c1'', entry_downloads = 10,
        entry_versions = [(''1.0.0'', JNum 10)]\<rparr>]"
  by (simp add: same_day_log_def parse_line_def sample_eval simple_extract_def)


section \<open>The anomaly filters\<close>

lemma check_point_iff:
  "check_point points i \<longleftrightarrow>
     \<not> ((0 < i \<and> downloads (points ! i) > downloads (points ! (i - 1)))
        \<or> (i + 1 < length points \<and> downloads (points ! i) < downloads (points ! (i + 1))))"
  by (auto simp: check_point_def Let_def)

lemma validData_filter_iter:
  "validData (filter_iter points i) = map (nth points) (filter (check_point points) [0..<i])"
  by (induction i) (simp_all add: filter_body_def)

lemma skippedCount_filter_iter:
  "skippedCount (filter_iter points i) = length (filter (\<lambda>j. \<not> check_point points j) [0..<i])"
  by (induction i) (simp_all add: filter_body_def)

lemma dip_valid: "validData (anomaly_filter dip_series) = [pt 345600000 5, pt 86400000 10]"
  by (simp add: anomaly_filter_def dip_series_def filter_body_def check_point_def pt_def
      numeral_eq_Suc)

text \<open>
  C3. A point of the raw series is marked invalid if and only if its downloads exceed
  those of the point before it (its newer neighbour) or are less than those of the
  point after it (its older neighbour), each comparison made only where that neighbour
  exists, so the first and the last point have one comparison each. The neighbours are
  read in the raw series, so what is decided for one point changes nothing for another:
  \<^verbatim>\<open>validData\<close> is the raw series restricted to the indices of the valid points, in their
  order, and \<^verbatim>\<open>skippedCount\<close> is the number of the others.
\<close>

theorem neighbor_policy:
  "(\<forall>i < length raw.
      check_point raw i \<longleftrightarrow>
        \<not> ((0 < i \<and> downloads (raw ! i) > downloads (raw ! (i - 1)))
           \<or> (i + 1 < length raw \<and> downloads (raw ! i) < downloads (raw ! (i + 1)))))
   \<and> validData (anomaly_filter raw) =
       map (nth raw) (filter (check_point raw) [0..<length raw])
   \<and> skippedCount (anomaly_filter raw) =
       length (filter (\<lambda>i. \<not> check_point raw i) [0..<length raw])"
  by (simp add: check_point_iff validData_filter_iter skippedCount_filter_iter anomaly_filter_def)

text \<open>
  In the series 5, 1, 20, 10 the two points in the middle are invalid.
\<close>

lemma upt4: "[0..<4] = [0, 1, 2, 3]"
  by (simp add: upt_rec)

theorem neighbor_policy_witness:
  "check_point dip_series 0 \<and> \<not> check_point dip_series 1 \<and> \<not> check_point dip_series 2
   \<and> check_point dip_series 3
   \<and> validData (anomaly_filter dip_series) = [pt 345600000 5, pt 86400000 10]
   \<and> skippedCount (anomaly_filter dip_series) = 2"
  using neighbor_policy [of dip_series]
  by (simp add: dip_series_def pt_def upt4 check_point_iff)

lemma subseq_sorted_wrt:
  "sorted_wrt P ys \<Longrightarrow> subseq xs ys \<Longrightarrow> sorted_wrt P xs"
proof (induction ys arbitrary: xs)
  case Nil
  then have "xs = []" by simp
  then show ?case by simp
next
  case (Cons y ys)
  show ?case
  proof (cases xs)
    case Nil
    then show ?thesis by simp
  next
    case xs: (Cons x xs')
    show ?thesis
    proof (cases "x = y")
      case True
      with xs Cons.prems have sub: "subseq xs' ys" by simp
      then have "set xs' \<subseteq> set ys"
        by (auto elim: list_emb_set)
      with Cons.prems(1) Cons.IH [OF _ sub] xs True show ?thesis by auto
    next
      case False
      with xs Cons.prems have "subseq xs ys" by simp
      with Cons.prems(1) Cons.IH [of xs] show ?thesis by simp
    qed
  qed
qed

lemma sorted_wrt_both:
  "sorted_wrt P xs \<Longrightarrow> sorted_wrt Q xs \<Longrightarrow> sorted_wrt (\<lambda>a b. P a b \<and> Q a b) xs"
  by (induction xs) auto

lemma sorted_wrt_pairs:
  assumes "sorted_wrt P xs" "a \<in> set xs" "b \<in> set xs"
  shows "a = b \<or> P a b \<or> P b a"
proof -
  from assms(2,3) obtain i j where ij: "i < length xs" "xs ! i = a" "j < length xs" "xs ! j = b"
    by (auto simp: in_set_conv_nth)
  consider "i < j" | "j < i" | "i = j" by linarith
  then show ?thesis
  proof cases
    case 1
    with sorted_wrt_nth_less [OF assms(1), of i j] ij show ?thesis by simp
  next
    case 2
    with sorted_wrt_nth_less [OF assms(1), of j i] ij show ?thesis by simp
  next
    case 3
    with ij show ?thesis by simp
  qed
qed

lemma simple_points_days:
  assumes "sorted (rev (map timestamp commits))"
  shows "sorted_wrt (\<lambda>a b. entry_date b \<le> entry_date a)
     (List.map_filter (simple_point git_show) commits)"
  using assms
proof (induction commits)
  case Nil
  show ?case by (simp add: List.map_filter_def)
next
  case (Cons c cs)
  from Cons.prems have later: "\<forall>c' \<in> set cs. timestamp c' \<le> timestamp c"
    and rest: "sorted (rev (map timestamp cs))"
    by (auto simp: sorted_append)
  have days: "entry_date e = date_of (timestamp c')" if "simple_point git_show c' = Some e" for c' e
    using that by (auto simp: simple_point_def split: fetch.splits option.splits if_splits)
  show ?case
  proof (cases "simple_point git_show c")
    case None
    with Cons.IH [OF rest] show ?thesis by simp
  next
    case (Some e)
    have "entry_date e' \<le> entry_date e" if "e' \<in> set (List.map_filter (simple_point git_show) cs)" for e'
    proof -
      from that obtain c' where c': "c' \<in> set cs" "simple_point git_show c' = Some e'"
        by (auto simp: List.map_filter_def)
      with later have "date_of (timestamp c') \<le> date_of (timestamp c)"
        by (simp add: date_of_def zdiv_mono1)
      with days [OF c'(2)] days [OF Some] show ?thesis by simp
    qed
    with Some Cons.IH [OF rest] show ?thesis by simp
  qed
qed

lemma simple_extract_downloads:
  assumes "sorted (rev (map snd lines))"
  shows "sorted (map entry_downloads (simple_extract git_show lines))"
proof -
  let ?cs = "map parse_line lines"
  let ?h = "history (simple_loop git_show ?cs)"
  from assms have "sorted_wrt (\<lambda>a b. snd b \<le> snd a) lines"
    by (simp add: sorted_wrt_rev sorted_wrt_map)
  then have "sorted_wrt (\<lambda>a b. timestamp (parse_line b) \<le> timestamp (parse_line a)) lines"
    by (rule sorted_wrt_mono_rel [rotated]) (simp add: parse_line_def)
  then have "sorted (rev (map timestamp ?cs))"
    by (simp add: sorted_wrt_rev sorted_wrt_map)
  from subseq_sorted_wrt [OF simple_points_days [OF this] simple_loop_subseq]
  have days: "sorted_wrt (\<lambda>a b. entry_date b \<le> entry_date a) ?h" .
  from simple_loop_inv [of git_show ?cs]
  have dl: "sorted_wrt (\<lambda>a b. entry_downloads b \<le> entry_downloads a) ?h"
    and dist: "distinct (map entry_date ?h)"
    by (simp_all add: simple_inv_def sorted_wrt_rev sorted_wrt_map)
  note both = sorted_wrt_both [OF days dl]
  have mono: "entry_downloads a \<le> entry_downloads b"
    if "a \<in> set ?h" "b \<in> set ?h" "entry_date a \<le> entry_date b" for a b
  proof -
    from sorted_wrt_pairs [OF both that(1,2)]
    consider "a = b" | "entry_date b \<le> entry_date a" | "entry_downloads a \<le> entry_downloads b"
      by blast
    then show ?thesis
    proof cases
      case 2
      with that(3) have "entry_date a = entry_date b" by simp
      with dist that(1,2) have "a = b"
        by (auto simp: distinct_map dest: inj_onD)
      then show ?thesis by simp
    qed simp_all
  qed
  have "sorted_wrt (\<lambda>a b. entry_date a \<le> entry_date b) (sort_key entry_date ?h)"
    using sorted_sort_key [of entry_date ?h] by (simp add: sorted_wrt_map)
  then have "sorted_wrt (\<lambda>a b. entry_downloads a \<le> entry_downloads b) (sort_key entry_date ?h)"
    by (rule sorted_wrt_mono_rel [rotated]) (simp add: mono)
  then show ?thesis
    by (simp add: simple_extract_def sorted_wrt_map)
qed

text \<open>
  C1, in the form the scripts satisfy. Read from oldest to newest, that is against the
  order of the commits, the downloads that the sequential filter of the simple variant
  retains never decrease; when the log is newest first, the downloads of the array the
  script writes never decrease either. Every point that the neighbour check of the strict
  variant retains has downloads at most those of its newer neighbour in the raw series
  and at least those of its older one; two retained points with rejected points between
  them are not compared.
\<close>

theorem monotone_downloads:
  "sorted (map entry_downloads (rev (history (simple_loop git_show commits))))
   \<and> (sorted (rev (map snd lines))
      \<longrightarrow> sorted (map entry_downloads (simple_extract git_show lines)))
   \<and> (\<forall>j < length (validData (anomaly_filter raw)).
        \<exists>i < length raw.
          validData (anomaly_filter raw) ! j = raw ! i
          \<and> (0 < i \<longrightarrow> downloads (raw ! i) \<le> downloads (raw ! (i - 1)))
          \<and> (i + 1 < length raw \<longrightarrow> downloads (raw ! (i + 1)) \<le> downloads (raw ! i)))"
proof (intro conjI allI impI)
  show "sorted (map entry_downloads (rev (history (simple_loop git_show commits))))"
    using simple_loop_inv [of git_show commits] by (simp add: simple_inv_def rev_map)
next
  assume "sorted (rev (map snd lines))"
  then show "sorted (map entry_downloads (simple_extract git_show lines))"
    by (rule simple_extract_downloads)
next
  fix j
  let ?ok = "filter (check_point raw) [0..<length raw]"
  assume "j < length (validData (anomaly_filter raw))"
  then have j: "j < length ?ok"
    by (simp add: anomaly_filter_def validData_filter_iter)
  then have "?ok ! j \<in> set ?ok"
    by (rule nth_mem)
  then have i: "?ok ! j < length raw" "check_point raw (?ok ! j)"
    by auto
  have "validData (anomaly_filter raw) ! j = raw ! (?ok ! j)"
    using j by (simp add: anomaly_filter_def validData_filter_iter)
  with i show "\<exists>i < length raw.
          validData (anomaly_filter raw) ! j = raw ! i
          \<and> (0 < i \<longrightarrow> downloads (raw ! i) \<le> downloads (raw ! (i - 1)))
          \<and> (i + 1 < length raw \<longrightarrow> downloads (raw ! (i + 1)) \<le> downloads (raw ! i))"
    by (auto simp: check_point_iff intro!: exI [of _ "?ok ! j"])
qed

text \<open>
  The sample log under the sequential filter, and the last retained point of the series
  5, 1, 20, 10 under the neighbour check.
\<close>

theorem monotone_downloads_witness:
  "map entry_downloads (rev (history (simple_loop sample_show (map parse_line sample_log)))) =
     [0, 5, 10]
   \<and> sorted (rev (map snd sample_log))
   \<and> map entry_downloads (simple_extract sample_show sample_log) = [0, 5, 10]
   \<and> validData (anomaly_filter dip_series) ! 1 = dip_series ! 3
   \<and> downloads (dip_series ! 3) \<le> downloads (dip_series ! 2)"
  using monotone_downloads [of sample_show "map parse_line sample_log" sample_log dip_series]
  by (simp add: dip_valid sample_log_def parse_line_def sample_eval simple_extract_def)
    (simp add: dip_series_def pt_def)

text \<open>
  Against C1 as the specification words it (non-decreasing under either policy). The
  series 5, 1, 20, 10 is sorted newest
  first; the check retains 5 and 10, which decrease from oldest to newest.
\<close>

theorem neighbor_not_monotone:
  "sort_newest_first dip_series = dip_series
   \<and> \<not> sorted (map downloads (rev (validData (anomaly_filter dip_series))))"
  by (simp add: dip_valid) (simp add: sort_newest_first_def dip_series_def pt_def)


section \<open>The quotients of doubles\<close>

text \<open>
  The powers of two, and the exponent of a positive rational.
\<close>

lemma pow2_powi: "pow2 e = 2 powi e"
  by (simp add: pow2_def power_int_def power_inverse inverse_eq_divide power_one_over)

lemma pow2_pos: "0 < pow2 e"
  by (simp add: pow2_def)

lemma pow2_Suc: "pow2 (e + 1) = 2 * pow2 e"
  unfolding pow2_powi by (simp add: power_int_add)

lemma pow2_add: "pow2 (a + b) = pow2 a * pow2 b"
  unfolding pow2_powi by (simp add: power_int_add)

lemma bitlen_ge_one: "1 \<le> n \<Longrightarrow> 1 \<le> bitlen n"
  using bitlen_bounds [of n] by (cases "bitlen n \<le> 0") auto

lemma binary_exponent_bounds:
  assumes "0 < x"
  shows "pow2 (binary_exponent x) \<le> x \<and> x < pow2 (binary_exponent x + 1)"
proof (cases "1 \<le> x")
  case True
  define n where "n = \<lfloor>x\<rfloor>"
  from True have n: "1 \<le> n" by (simp add: n_def le_floor_iff)
  from bitlen_ge_one [OF n] have k: "1 \<le> bitlen n" .
  from n bitlen_bounds [of n]
  have b: "2 ^ nat (bitlen n - 1) \<le> n" "n < 2 ^ nat (bitlen n)" by simp_all
  have e: "binary_exponent x = bitlen n - 1" using True by (simp add: binary_exponent_def n_def)
  have "pow2 (bitlen n - 1) = of_int (2 ^ nat (bitlen n - 1))" using k by (simp add: pow2_def)
  also have "\<dots> \<le> of_int n" using b(1) by (simp only: of_int_le_iff)
  also have "\<dots> \<le> x" by (simp add: n_def)
  finally have lo: "pow2 (bitlen n - 1) \<le> x" .
  have "x < of_int \<lfloor>x\<rfloor> + 1" by linarith
  then have "x < of_int (n + 1)" by (simp add: n_def)
  also have "\<dots> \<le> of_int (2 ^ nat (bitlen n))" using b(2) by (simp only: of_int_le_iff)
  also have "\<dots> = pow2 (bitlen n - 1 + 1)" using k by (simp add: pow2_def)
  finally have hi: "x < pow2 (bitlen n - 1 + 1)" .
  from lo hi show ?thesis unfolding e by simp
next
  case False
  define y where "y = 1 / x"
  define m where "m = \<lceil>y\<rceil> - 1"
  from False assms have y: "1 < y" by (simp add: y_def)
  then have "1 < \<lceil>y\<rceil>" by (simp add: less_ceiling_iff)
  then have m: "1 \<le> m" by (simp add: m_def)
  from bitlen_ge_one [OF m] have k: "1 \<le> bitlen m" .
  from m bitlen_bounds [of m]
  have b: "2 ^ nat (bitlen m - 1) \<le> m" "m < 2 ^ nat (bitlen m)" by simp_all
  have e: "binary_exponent x = - bitlen m" using False by (simp add: binary_exponent_def m_def y_def)
  have my: "of_int m < y" "y \<le> of_int m + 1"
    unfolding m_def by (simp_all add: ceiling_correct)
  have "(of_int (2 ^ nat (bitlen m - 1)) :: rat) \<le> of_int m" using b(1) by (simp only: of_int_le_iff)
  then have "(2 :: rat) ^ nat (bitlen m - 1) \<le> of_int m" by simp
  with my(1) have lo: "(2 :: rat) ^ nat (bitlen m - 1) < y" by linarith
  have "of_int m + 1 = (of_int (m + 1) :: rat)" by simp
  also have "\<dots> \<le> of_int (2 ^ nat (bitlen m))" using b(2) by (simp only: of_int_le_iff)
  finally have "of_int m + 1 \<le> (2 :: rat) ^ nat (bitlen m)" by simp
  with my(2) have hi: "y \<le> (2 :: rat) ^ nat (bitlen m)" by simp
  have x: "x = 1 / y" using assms by (simp add: y_def)
  from hi y have "1 / (2 :: rat) ^ nat (bitlen m) \<le> 1 / y"
    by (intro divide_left_mono) simp_all
  then have 1: "pow2 (- bitlen m) \<le> x" using k by (simp add: pow2_def x)
  from lo y have "1 / y < 1 / (2 :: rat) ^ nat (bitlen m - 1)"
    by (intro divide_strict_left_mono) (simp_all add: zero_less_mult_iff)
  moreover have "pow2 (- bitlen m + 1) = 1 / (2 :: rat) ^ nat (bitlen m - 1)"
    using k by (auto simp: pow2_def)
  ultimately have 2: "x < pow2 (- bitlen m + 1)" by (simp add: x)
  from 1 2 show ?thesis unfolding e by simp
qed

text \<open>
  The rounding of a quotient gives a double, and the nearest one: the result is a
  multiple of the spacing \<open>2\<^sup>e\<^sup>-\<^sup>5\<^sup>2\<close> of the doubles at the exponent \<open>e\<close> of the exact value,
  by an integer of at most 53 bits, and it is at most half the spacing away from the
  exact value. The sign is kept, and an integer below \<open>2\<^sup>5\<^sup>3\<close> is a double.
\<close>

lemma round_half_even_nearest: "\<bar>of_int (round_half_even m) - m\<bar> \<le> 1 / 2"
proof -
  have "of_int \<lfloor>m\<rfloor> \<le> m" "m < of_int \<lfloor>m\<rfloor> + 1" by linarith+
  then show ?thesis
    unfolding round_half_even_def Let_def by (simp add: abs_if) linarith
qed

lemma round_half_even_ge: "of_int k \<le> m \<Longrightarrow> k \<le> round_half_even m"
proof -
  assume "of_int k \<le> m"
  then have "k \<le> \<lfloor>m\<rfloor>" by (simp add: le_floor_iff)
  then show ?thesis by (simp add: round_half_even_def Let_def)
qed

lemma round_half_even_le: "m \<le> of_int k \<Longrightarrow> round_half_even m \<le> k"
proof -
  assume a: "m \<le> of_int k"
  have f: "\<lfloor>m\<rfloor> \<le> k" using a by (simp add: floor_le_iff)
  show ?thesis
  proof (cases "\<lfloor>m\<rfloor> = k")
    case True
    with a have "m = of_int \<lfloor>m\<rfloor>" by linarith
    then have "m - of_int \<lfloor>m\<rfloor> = 0" by simp
    with True show ?thesis by (simp add: round_half_even_def Let_def)
  next
    case False
    with f have "\<lfloor>m\<rfloor> + 1 \<le> k" by simp
    then show ?thesis by (auto simp: round_half_even_def Let_def)
  qed
qed

lemma round_half_even_of_int: "round_half_even (of_int k) = k"
  by (simp add: round_half_even_def)

lemma to_double_nearest:
  assumes "x \<noteq> 0"
  shows "\<bar>to_double x - x\<bar> \<le> pow2 (binary_exponent \<bar>x\<bar> - 52) / 2"
proof -
  define u where "u = pow2 (binary_exponent \<bar>x\<bar> - 52)"
  have u: "0 < u" by (simp add: u_def pow2_pos)
  have "to_double x - x = (of_int (round_half_even (x / u)) - x / u) * u"
    using assms u by (simp add: to_double_def Let_def u_def [symmetric] algebra_simps)
  then have "\<bar>to_double x - x\<bar> = \<bar>of_int (round_half_even (x / u)) - x / u\<bar> * u"
    using u by (simp add: abs_mult)
  also have "\<dots> \<le> (1 / 2) * u"
    using u round_half_even_nearest [of "x / u"] by (intro mult_right_mono) simp_all
  finally show ?thesis by (simp add: u_def)
qed

lemma to_double_significand:
  assumes "0 < x"
  shows "\<exists>k. to_double x = of_int k * pow2 (binary_exponent x - 52)
           \<and> 2 ^ 52 \<le> k \<and> k \<le> 2 ^ 53"
proof -
  define u where "u = pow2 (binary_exponent x - 52)"
  have u: "0 < u" by (simp add: u_def pow2_pos)
  from binary_exponent_bounds [OF assms]
  have b: "pow2 (binary_exponent x) \<le> x" "x < pow2 (binary_exponent x + 1)" by simp_all
  have p: "pow2 52 = 2 ^ 52" "pow2 53 = 2 ^ 53" by (simp_all add: pow2_def)
  have "52 + (binary_exponent x - 52) = binary_exponent x"
    "53 + (binary_exponent x - 52) = binary_exponent x + 1" by simp_all
  with pow2_add [of 52 "binary_exponent x - 52"] pow2_add [of 53 "binary_exponent x - 52"]
  have e: "pow2 (binary_exponent x) = 2 ^ 52 * u"
    and e1: "pow2 (binary_exponent x + 1) = 2 ^ 53 * u"
    unfolding p u_def by simp_all
  from b(1) u have lo: "of_int (2 ^ 52) \<le> x / u" by (simp add: e pos_le_divide_eq)
  from b(2) u have hi: "x / u \<le> of_int (2 ^ 53)" by (simp add: e1 pos_divide_le_eq)
  have "to_double x = of_int (round_half_even (x / u)) * u"
    using assms by (simp add: to_double_def Let_def u_def)
  with round_half_even_ge [OF lo] round_half_even_le [OF hi] show ?thesis
    unfolding u_def by blast
qed

lemma to_double_pos: "0 < x \<Longrightarrow> 0 < to_double x"
proof -
  assume x: "0 < x"
  from to_double_significand [OF x] obtain k where
    k: "to_double x = of_int k * pow2 (binary_exponent x - 52)" "2 ^ 52 \<le> k" by blast
  from k(2) have "0 < k" by (rule less_le_trans [rotated]) simp
  with k(1) pow2_pos show ?thesis by simp
qed

lemma to_double_nonpos: "x \<le> 0 \<Longrightarrow> to_double x \<le> 0"
proof (cases "x = 0")
  case True
  then show ?thesis by (simp add: to_double_def)
next
  case False
  assume "x \<le> 0"
  define u where "u = pow2 (binary_exponent \<bar>x\<bar> - 52)"
  have u: "0 < u" by (simp add: u_def pow2_pos)
  with \<open>x \<le> 0\<close> have "x / u \<le> of_int 0" by (simp add: divide_le_0_iff)
  from round_half_even_le [OF this] have "round_half_even (x / u) \<le> 0" .
  then have "of_int (round_half_even (x / u)) * u \<le> 0"
    using u by (simp add: mult_le_0_iff)
  with False show ?thesis by (simp add: to_double_def Let_def u_def)
qed

lemma to_double_of_int:
  assumes "0 < n" "n < 2 ^ 53"
  shows "to_double (of_int n) = of_int n"
proof -
  define e where "e = binary_exponent (of_int n)"
  from assms(1) have pos: "(0 :: rat) < of_int n" by simp
  from binary_exponent_bounds [OF pos] have lo: "pow2 e \<le> of_int n" by (simp add: e_def)
  have "e \<le> 52"
  proof (rule ccontr)
    assume "\<not> e \<le> 52"
    then have "53 \<le> e" by simp
    then have "pow2 e = 2 ^ 53 * pow2 (e - 53)"
      using pow2_add [of 53 "e - 53"] by (simp add: pow2_def)
    moreover from \<open>53 \<le> e\<close> have "1 \<le> pow2 (e - 53)" by (simp add: pow2_def)
    ultimately have "(2 :: rat) ^ 53 \<le> pow2 e" by simp
    with lo have "(2 :: rat) ^ 53 \<le> of_int n" by linarith
    then have "(of_int (2 ^ 53) :: rat) \<le> of_int n" by simp
    then have "2 ^ 53 \<le> n" by (simp only: of_int_le_iff)
    with assms(2) show False by simp
  qed
  then have u: "pow2 (e - 52) = 1 / 2 ^ nat (52 - e)"
    by (cases "e = 52") (simp_all add: pow2_def)
  have "of_int n / pow2 (e - 52) = (of_int (n * 2 ^ nat (52 - e)) :: rat)"
    by (simp add: u)
  then have "round_half_even (of_int n / pow2 (e - 52)) = n * 2 ^ nat (52 - e)"
    by (simp only: round_half_even_of_int)
  then have "to_double (of_int n) = of_int (n * 2 ^ nat (52 - e)) * pow2 (e - 52)"
    using assms(1) by (simp add: to_double_def Let_def e_def)
  also have "\<dots> = of_int n" by (simp add: u)
  finally show ?thesis .
qed

lemma js_div_pos_iff: "0 < y \<Longrightarrow> 0 < js_div x y \<longleftrightarrow> 0 < x"
proof -
  assume y: "0 < y"
  show ?thesis
  proof (cases "0 < x")
    case True
    with y have "0 < x / y" by simp
    from to_double_pos [OF this] True show ?thesis by (simp add: js_div_def)
  next
    case False
    with y have "x / y \<le> 0" by (simp add: divide_le_0_iff)
    from to_double_nonpos [OF this] False show ?thesis by (simp add: js_div_def)
  qed
qed

lemma js_div_nearest:
  assumes "x \<noteq> 0" "y \<noteq> 0"
  shows "\<bar>js_div x y - x / y\<bar> \<le> pow2 (binary_exponent \<bar>x / y\<bar> - 52) / 2"
  using to_double_nearest [of "x / y"] assms by (simp add: js_div_def)

lemma js_div_whole:
  assumes "0 < y" "0 < k" "k < 2 ^ 53"
  shows "js_div (of_int k * y) y = of_int k"
  using assms to_double_of_int [of k] by (simp add: js_div_def)


section \<open>Strict variant: the daily growth\<close>

lemma floor_rat_numeral:
  "\<lfloor>(numeral a :: rat) / numeral b\<rfloor> = numeral a div numeral b"
  using floor_divide_of_int_eq [of "numeral a" "numeral b", where ?'a = rat] by simp

lemma growth_iter_prev:
  assumes "j < length pts"
  shows "previousDownloads (growth_iter pts (Suc j)) = downloads (rev pts ! j)
     \<and> previousTimestamp (growth_iter pts (Suc j)) = timestamp (rev pts ! j)"
  using assms by (simp add: growth_body_def Let_def rev_nth)

lemma growth_iter_entry:
  assumes "k < length pts"
  shows "map_of (historyObj (growth_iter pts (Suc k))) (timestamp (rev pts ! k)) =
     Some \<lparr>hv_date = date (rev pts ! k),
            hv_data = entry_data (downloads (rev pts ! k))
              (if k = 0 then downloads (rev pts ! k)
               else if js_div (of_int (timestamp (rev pts ! k) - timestamp (rev pts ! (k - 1))))
                         86400000 > 0
                    then js_round
                      (js_div (of_int (downloads (rev pts ! k) - downloads (rev pts ! (k - 1))))
                        (js_div (of_int (timestamp (rev pts ! k) - timestamp (rev pts ! (k - 1))))
                           86400000))
                    else 0)
              (versions (rev pts ! k))\<rparr>"
proof (cases k)
  case 0
  with assms show ?thesis
    by (simp add: growth_body_def Let_def rev_nth update_conv')
next
  case (Suc k')
  with assms have k': "k' < length pts" by simp
  from assms Suc have idx: "length pts - 1 - k \<noteq> length pts - 1"
    and p: "pts ! (length pts - 1 - k) = rev pts ! k"
    by (simp_all add: rev_nth)
  from growth_iter_prev [OF k'] Suc
  have prev: "previousDownloads (growth_iter pts k) = downloads (rev pts ! (k - 1))"
    "previousTimestamp (growth_iter pts k) = timestamp (rev pts ! (k - 1))"
    by simp_all
  have "growth_iter pts (Suc k) = growth_body pts (length pts - 1 - k) (growth_iter pts k)"
    by simp
  then show ?thesis
    unfolding growth_body_def Let_def p prev using idx Suc
    by (simp add: update_conv')
qed

lemma growth_iter_later:
  assumes "Suc k \<le> m" "m \<le> length pts"
    and "\<forall>j. k < j \<and> j < m \<longrightarrow> timestamp (rev pts ! j) \<noteq> t"
  shows "map_of (historyObj (growth_iter pts m)) t = map_of (historyObj (growth_iter pts (Suc k))) t"
  using assms
proof (induction m)
  case 0
  then show ?case by simp
next
  case (Suc m)
  show ?case
  proof (cases "m = k")
    case True
    then show ?thesis by simp
  next
    case False
    with Suc.prems have m: "Suc k \<le> m" "m \<le> length pts" "m < length pts" "k < m"
      by simp_all
    from Suc.prems(3) have "\<forall>j. k < j \<and> j < m \<longrightarrow> timestamp (rev pts ! j) \<noteq> t"
      by simp
    from Suc.IH [OF m(1,2) this]
    have ih: "map_of (historyObj (growth_iter pts m)) t = map_of (historyObj (growth_iter pts (Suc k))) t" .
    from Suc.prems(3) m have "timestamp (rev pts ! m) \<noteq> t" by simp
    with m have "timestamp (pts ! (length pts - 1 - m)) \<noteq> t"
      by (simp add: rev_nth)
    then have "map_of (historyObj (growth_iter pts (Suc m))) t = map_of (historyObj (growth_iter pts m)) t"
      by (simp add: growth_body_def Let_def update_conv')
    with ih show ?thesis by simp
  qed
qed

lemma map_of_entry_data:
  "map_of (entry_data d g vs) key =
     (if key \<in> fst ` set vs then map_of vs key
      else if key = ''downloads'' then Some (JNum d)
      else if key = ''dailyGrowth'' then Some (JNum g) else None)"
  unfolding entry_data_def map_of_foldl_update set_js_keys
  using get_prop_in_keys [of key vs] by simp

lemma entry_data_dailyGrowth:
  "''dailyGrowth'' \<notin> fst ` set vs \<Longrightarrow> get_prop (entry_data d g vs) ''dailyGrowth'' = JNum g"
  by (simp add: get_prop_def map_of_entry_data)

text \<open>
  The quotients of the sample series, as the scripts compute them.
\<close>

lemma js_div_drift:
  "js_div 2304000 86400000 = 7686143364045647 / 288230376151711744"
  "js_div 3 (7686143364045647 / 288230376151711744) = 7916483719987199 / 70368744177664"
  "js_div 172800000 86400000 = 2"
  "js_div 5 2 = 5 / 2"
  "js_div (- 5) 2 = - (5 / 2)"
  "js_div 864000000 86400000 = 10"
  "js_div 50 10 = 5"
  "js_div 0 86400000 = 0"
  by code_simp+

text \<open>
  C4. Let \<open>p\<close> be the point number \<open>k\<close> of the validated points from oldest to newest.
  The iteration for \<open>p\<close> writes, under the timestamp of \<open>p\<close>, the date of \<open>p\<close> and the
  object made of the downloads of \<open>p\<close>, the daily growth \<open>g\<close> and the version counts.
  For the oldest point \<open>g\<close> is the downloads of \<open>p\<close>. For a later point, with
  \<open>daysDifference\<close> the quotient of the milliseconds elapsed since the point before by
  86,400,000, \<open>g\<close> is 0 when \<open>daysDifference\<close> is not positive, which is when the
  timestamp has not increased; otherwise \<open>g\<close> is the quotient of the difference in
  downloads by \<open>daysDifference\<close>, rounded to the nearest integer, a tie going up (the
  integer \<open>g\<close> with \<open>g \<le> x + 1/2 < g + 1\<close> for the quotient \<open>x\<close>). Both quotients are
  quotients of doubles. The object gives \<open>g\<close> under \<^verbatim>\<open>dailyGrowth\<close> unless a version has
  that name; and the written history keeps the entry unless a later point has the same
  timestamp.
\<close>

theorem daily_growth:
  assumes "k < length valid"
  shows "(let pts = rev valid; p = pts ! k;
              g = (if k = 0 then downloads p
                   else (let q = pts ! (k - 1);
                             daysDifference = js_div (of_int (timestamp p - timestamp q)) 86400000
                         in if daysDifference > 0
                            then \<lfloor>js_div (of_int (downloads p - downloads q)) daysDifference + 1 / 2\<rfloor>
                            else 0));
              written = Some \<lparr>hv_date = date p, hv_data = entry_data (downloads p) g (versions p)\<rparr>
          in map_of (historyObj (growth_iter valid (Suc k))) (timestamp p) = written
           \<and> (''dailyGrowth'' \<notin> fst ` set (versions p)
              \<longrightarrow> get_prop (entry_data (downloads p) g (versions p)) ''dailyGrowth'' = JNum g)
           \<and> ((\<forall>j. k < j \<and> j < length pts \<longrightarrow> timestamp (pts ! j) \<noteq> timestamp p)
              \<longrightarrow> map_of (historyObj (build_history valid)) (timestamp p) = written)
           \<and> (0 < k \<longrightarrow>
                (0 < js_div (of_int (timestamp p - timestamp (pts ! (k - 1)))) 86400000
                 \<longleftrightarrow> timestamp (pts ! (k - 1)) < timestamp p)))"
proof -
  from assms have "Suc k \<le> length valid" by simp
  from growth_iter_later [of k "length valid" valid "timestamp (rev valid ! k)"] this
  have later: "(\<forall>j. k < j \<and> j < length (rev valid) \<longrightarrow> timestamp (rev valid ! j) \<noteq> timestamp (rev valid ! k))
      \<longrightarrow> map_of (historyObj (build_history valid)) (timestamp (rev valid ! k)) =
          map_of (historyObj (growth_iter valid (Suc k))) (timestamp (rev valid ! k))"
    by (simp add: build_history_def)
  have sign: "0 < js_div (of_int (timestamp (rev valid ! k) - timestamp (rev valid ! (k - 1)))) 86400000
      \<longleftrightarrow> timestamp (rev valid ! (k - 1)) < timestamp (rev valid ! k)"
    by (simp add: js_div_pos_iff)
  from growth_iter_entry [OF assms] later entry_data_dailyGrowth sign show ?thesis
    unfolding Let_def js_round_def by presburger
qed

text \<open>
  From 100 downloads to 103 in 2304 seconds the growth is 112 a day: the days elapsed
  are the double nearest to 2/75, and 3 divided by it is the double just below 112.5,
  where the exact quotient is 112.5. From 10 downloads to 15 in two days the growth is
  2.5, rounded to 3; from 15 to 10 in two days it is -2.5, rounded to -2. From 100
  downloads at day 0 to 150 at day 10 the growth is 5 a day; a second point at the same
  timestamp has growth 0 and replaces the entry.
\<close>

theorem daily_growth_witness:
  "map_of (historyObj (build_history drift_sample)) 1700002304000 =
     Some \<lparr>hv_date = 19675, hv_data = [(''downloads'', JNum 103), (''dailyGrowth'', JNum 112)]\<rparr>
   \<and> map_of (historyObj (build_history tie_sample)) 172800000 =
     Some \<lparr>hv_date = 2, hv_data = [(''downloads'', JNum 15), (''dailyGrowth'', JNum 3)]\<rparr>
   \<and> map_of (historyObj (build_history tie_sample)) 345600000 =
     Some \<lparr>hv_date = 4, hv_data = [(''downloads'', JNum 10), (''dailyGrowth'', JNum (- 2))]\<rparr>
   \<and> map_of (historyObj (growth_iter growth_sample 2)) 864000000 =
     Some \<lparr>hv_date = 10, hv_data = [(''downloads'', JNum 150), (''dailyGrowth'', JNum 5)]\<rparr>
   \<and> map_of (historyObj (growth_iter growth_sample 1)) 0 =
     Some \<lparr>hv_date = 0, hv_data = [(''downloads'', JNum 100), (''dailyGrowth'', JNum 100)]\<rparr>
   \<and> map_of (historyObj (build_history growth_sample)) 864000000 =
     Some \<lparr>hv_date = 10, hv_data = [(''downloads'', JNum 150), (''dailyGrowth'', JNum 0)]\<rparr>"
  using daily_growth [of 1 drift_sample] daily_growth [of 1 tie_sample]
    daily_growth [of 2 tie_sample] daily_growth [of 1 growth_sample]
    daily_growth [of 0 growth_sample] daily_growth [of 2 growth_sample]
  by (simp add: drift_sample_def tie_sample_def growth_sample_def pt_def date_of_def
      entry_data_def keys_eval Let_def
      numeral_2_eq_2 less_Suc_eq all_conj_distrib get_prop_def growth_body_def build_history_def
      numeral_3_eq_3 update_conv' floor_rat_numeral js_div_drift)


section \<open>The order of the output\<close>

lemma collect_body_nonneg:
  assumes "0 \<le> timestamp c" "\<forall>p \<in> set (rawData s). 0 \<le> timestamp p"
    and "collect_body name git_show c s = Continue s' \<or> collect_body name git_show c s = Break s'"
  shows "\<forall>p \<in> set (rawData s'). 0 \<le> timestamp p"
proof (cases "git_show (hash c)")
  case Threw
  with assms show ?thesis by (auto simp: collect_body_def)
next
  case (Parsed statsData)
  show ?thesis
  proof (cases "plugin_data statsData name")
    case None
    with Parsed assms show ?thesis by (auto simp: collect_body_def)
  next
    case (Some pluginData)
    with Parsed assms show ?thesis
      by (cases "valid_time (timestamp c)") (auto simp: collect_body_def)
  qed
qed

lemma collect_loop_nonneg:
  assumes "\<forall>c \<in> set cs. 0 \<le> timestamp c" "\<forall>p \<in> set (rawData st). 0 \<le> timestamp p"
  shows "\<forall>p \<in> set (rawData (for_of (collect_body name git_show) cs st)). 0 \<le> timestamp p"
  using assms
proof (induction cs arbitrary: st)
  case Nil
  then show ?case by simp
next
  case (Cons c cs)
  from Cons.prems(1) have c: "0 \<le> timestamp c" and cs: "\<forall>c \<in> set cs. 0 \<le> timestamp c"
    by simp_all
  show ?case
  proof (cases "collect_body name git_show c st")
    case (Continue s')
    with collect_body_nonneg [OF c Cons.prems(2), of name git_show s']
    have "\<forall>p \<in> set (rawData s'). 0 \<le> timestamp p" by simp
    from Cons.IH [OF cs this] Continue show ?thesis by simp
  next
    case (Break s')
    with collect_body_nonneg [OF c Cons.prems(2), of name git_show s']
    show ?thesis by simp
  qed
qed

lemma collect_nonneg:
  assumes "\<forall>c \<in> set cs. 0 \<le> timestamp c"
  shows "\<forall>p \<in> set (rawData (collect name git_show cs)). 0 \<le> timestamp p"
  unfolding collect_def by (rule collect_loop_nonneg [OF assms]) simp

lemma sorted_map_nth_filter:
  assumes "sorted (map f xs)"
  shows "sorted (map f (map (nth xs) (filter P [0..<length xs])))"
proof -
  have "sorted_wrt (\<lambda>i j. f (xs ! i) \<le> f (xs ! j)) (filter P [0..<length xs])"
  proof (rule sorted_wrt_mono_rel [of _ "(<)"])
    show "sorted_wrt (<) (filter P [0..<length xs])"
      by (simp add: sorted_wrt_filter)
  next
    fix i j
    assume "i \<in> set (filter P [0..<length xs])" "j \<in> set (filter P [0..<length xs])" "i < j"
    then have "i \<le> j" "j < length (map f xs)" by simp_all
    from sorted_nth_mono [OF assms this] \<open>i < j\<close> \<open>j < length (map f xs)\<close>
    show "f (xs ! i) \<le> f (xs ! j)" by simp
  qed
  then show ?thesis
    by (simp add: sorted_wrt_map)
qed

lemma anomaly_filter_set: "set (validData (anomaly_filter xs)) \<subseteq> set xs"
  by (auto simp: anomaly_filter_def validData_filter_iter)

lemma anomaly_filter_sorted:
  "sorted (map f xs) \<Longrightarrow> sorted (map f (validData (anomaly_filter xs)))"
  unfolding anomaly_filter_def validData_filter_iter by (rule sorted_map_nth_filter)

lemma sorted_wrt_less_snoc:
  fixes k :: int
  assumes "sorted_wrt (<) ks" "\<forall>x \<in> set ks. x \<le> k" "k \<notin> set ks"
  shows "sorted_wrt (<) (ks @ [k])"
  using assms by (auto simp: sorted_wrt_append less_le)

lemma growth_iter_keys:
  assumes "sorted (map timestamp (rev pts))" "j \<le> length pts"
  shows "sorted_wrt (<) (map fst (historyObj (growth_iter pts j)))
     \<and> set (map fst (historyObj (growth_iter pts j))) = timestamp ` set (take j (rev pts))"
  using assms(2)
proof (induction j)
  case 0
  show ?case by simp
next
  case (Suc j)
  let ?h = "historyObj (growth_iter pts j)"
  let ?p = "pts ! (length pts - 1 - j)"
  from Suc.prems have j: "j < length pts" by simp
  with Suc.IH have srt: "sorted_wrt (<) (map fst ?h)"
    and keys: "set (map fst ?h) = timestamp ` set (take j (rev pts))"
    by simp_all
  from j have p: "?p = rev pts ! j"
    by (simp add: rev_nth)
  have le: "\<forall>x \<in> set (map fst ?h). x \<le> timestamp ?p"
  proof
    fix x
    assume "x \<in> set (map fst ?h)"
    with keys obtain q where "q \<in> set (take j (rev pts))" "x = timestamp q"
      by auto
    then obtain i where i: "i < j" "q = rev pts ! i"
      using j by (auto simp: in_set_conv_nth)
    from sorted_nth_mono [OF assms(1), of i j] i j have "timestamp (rev pts ! i) \<le> timestamp (rev pts ! j)"
      by (simp add: rev_nth)
    with \<open>x = timestamp q\<close> i p show "x \<le> timestamp ?p" by simp
  qed
  have hist: "map fst (historyObj (growth_iter pts (Suc j))) =
      (if timestamp ?p \<in> set (map fst ?h) then map fst ?h else map fst ?h @ [timestamp ?p])"
    by (simp add: growth_body_def Let_def update_keys)
  have "take (Suc j) (rev pts) = take j (rev pts) @ [rev pts ! j]"
    using j by (simp add: take_Suc_conv_app_nth)
  with keys p have set: "set (map fst (historyObj (growth_iter pts (Suc j)))) =
      timestamp ` set (take (Suc j) (rev pts))"
    unfolding hist by auto
  from srt le sorted_wrt_less_snoc [of "map fst ?h" "timestamp ?p"]
  have "sorted_wrt (<) (map fst (historyObj (growth_iter pts (Suc j))))"
    unfolding hist by simp
  with set show ?case by blast
qed

lemma own_properties_sorted:
  assumes "sorted_wrt (<) (map fst obj)" "\<forall>k \<in> set (map fst obj). 0 \<le> k"
  shows "sorted_wrt (<) (map fst (own_properties obj))"
proof -
  let ?ix = "filter (\<lambda>kv. is_array_index (fst kv)) obj"
  let ?rest = "filter (\<lambda>kv. \<not> is_array_index (fst kv)) obj"
  have ix: "map fst ?ix = filter is_array_index (map fst obj)"
    and rest: "map fst ?rest = filter (\<lambda>k. \<not> is_array_index k) (map fst obj)"
    by (simp_all add: filter_map comp_def)
  from assms(1) have six: "sorted_wrt (<) (map fst ?ix)" and srest: "sorted_wrt (<) (map fst ?rest)"
    unfolding ix rest by (simp_all add: sorted_wrt_filter)
  from six have "sorted (map fst ?ix)"
    by (simp add: strict_sorted_iff)
  then have "sort_key fst ?ix = ?ix"
    by (rule sort_key_id_if_sorted)
  then have own: "map fst (own_properties obj) = map fst ?ix @ map fst ?rest"
    by (simp add: own_properties_def)
  have "\<forall>x \<in> set (map fst ?ix). \<forall>y \<in> set (map fst ?rest). x < y"
    using assms(2) unfolding ix rest by (auto simp: is_array_index_def)
  with six srest show ?thesis
    unfolding own by (simp add: sorted_wrt_append)
qed

text \<open>
  C9. Whatever the log and the snapshots, the array that the simple variant writes is in
  ascending order of calendar day, and the properties that the strict variant writes are
  in ascending order of timestamp; both orders are strict.
\<close>

theorem output_ascending:
  "sorted_wrt (<) (map entry_date (simple_extract git_show lines))
   \<and> sorted_wrt (<) (map fst (extract_plugin_stats name git_show lines))"
proof
  have "distinct (map entry_date (simple_extract git_show lines))"
    using simple_loop_inv [of git_show "map parse_line lines"]
    by (simp add: simple_extract_def distinct_dates_sorted simple_inv_def)
  moreover have "sorted (map entry_date (simple_extract git_show lines))"
    by (simp add: simple_extract_def)
  ultimately show "sorted_wrt (<) (map entry_date (simple_extract git_show lines))"
    by (simp add: strict_sorted_iff)
next
  let ?raw = "sort_newest_first (rawData (collect name git_show (map parse_line lines)))"
  let ?valid = "validData (anomaly_filter ?raw)"
  have "sorted (map (\<lambda>p. - timestamp p) ?raw)"
    by (simp add: sort_newest_first_def)
  then have "sorted (map (\<lambda>p. - timestamp p) ?valid)"
    by (rule anomaly_filter_sorted)
  then have "sorted (rev (map timestamp ?valid))"
    by (simp add: sorted_wrt_rev sorted_wrt_map)
  then have asc: "sorted (map timestamp (rev ?valid))"
    by (simp add: rev_map)
  have "\<forall>c \<in> set (map parse_line lines). 0 \<le> timestamp c"
    by (simp add: parse_line_def)
  from collect_nonneg [OF this, of name git_show] anomaly_filter_set [of ?raw]
  have nonneg: "\<forall>t \<in> timestamp ` set ?valid. 0 \<le> t"
    by (auto simp: sort_newest_first_def)
  from growth_iter_keys [OF asc, of "length ?valid"]
  have "sorted_wrt (<) (map fst (historyObj (build_history ?valid)))"
    and "set (map fst (historyObj (build_history ?valid))) = timestamp ` set ?valid"
    by (simp_all add: build_history_def)
  with nonneg have "sorted_wrt (<) (map fst (own_properties (historyObj (build_history ?valid))))"
    by (intro own_properties_sorted) simp_all
  then show "sorted_wrt (<) (map fst (extract_plugin_stats name git_show lines))"
    by (simp add: extract_plugin_stats_def Let_def comp_def)
qed

text \<open>
  The sample log: three days in the simple variant, two timestamps in the strict one.
\<close>

lemma sample_raw:
  "rawData (collect ''chatgpt-md'' sample_show (map parse_line sample_log)) =
     [\<lparr>hash = ''c1'', timestamp = 259200000, date = 3, downloads = 10,
        versions = [(''1.0.0'', JNum 10)]\<rparr>,
      \<lparr>hash = ''c2'', timestamp = 176400000, date = 2, downloads = 20, versions = []\<rparr>,
      \<lparr>hash = ''c3'', timestamp = 172800000, date = 2, downloads = 5, versions = []\<rparr>,
      \<lparr>hash = ''c4'', timestamp = 86400000, date = 1, downloads = 0, versions = []\<rparr>]"
  by (simp add: sample_log_def parse_line_def sample_eval collect_def collect_body_def
      strict_versions_def ends_with_def)

lemma sample_valid:
  "validData (anomaly_filter (sort_newest_first
     [\<lparr>hash = ''c1'', timestamp = 259200000, date = 3, downloads = 10,
        versions = [(''1.0.0'', JNum 10)]\<rparr>,
      \<lparr>hash = ''c2'', timestamp = 176400000, date = 2, downloads = 20, versions = []\<rparr>,
      \<lparr>hash = ''c3'', timestamp = 172800000, date = 2, downloads = 5, versions = []\<rparr>,
      \<lparr>hash = ''c4'', timestamp = 86400000, date = 1, downloads = 0, versions = []\<rparr>])) =
     [\<lparr>hash = ''c3'', timestamp = 172800000, date = 2, downloads = 5, versions = []\<rparr>,
      \<lparr>hash = ''c4'', timestamp = 86400000, date = 1, downloads = 0, versions = []\<rparr>]"
  by (simp add: sort_newest_first_def anomaly_filter_def filter_body_def check_point_def
      numeral_eq_Suc)

lemma sample_history:
  "map fst (own_properties (historyObj (build_history
     [\<lparr>hash = ''c3'', timestamp = 172800000, date = 2, downloads = 5, versions = []\<rparr>,
      \<lparr>hash = ''c4'', timestamp = 86400000, date = 1, downloads = 0, versions = []\<rparr>]))) =
     [86400000, 172800000]"
  by (simp add: build_history_def growth_body_def numeral_2_eq_2 own_properties_def
      is_array_index_def)

lemma sample_simple_dates: "map entry_date (simple_extract sample_show sample_log) = [1, 2, 3]"
  by (simp add: sample_log_def parse_line_def sample_eval simple_extract_def)

theorem output_ascending_witness:
  "map entry_date (simple_extract sample_show sample_log) = [1, 2, 3]
   \<and> map fst (extract_plugin_stats ''chatgpt-md'' sample_show sample_log) =
       [86400000, 172800000]"
  using output_ascending [of sample_show sample_log "''chatgpt-md''"]
  by (simp add: sample_simple_dates extract_plugin_stats_def sample_raw sample_valid
      sample_history comp_def)


section \<open>Chart script: the rolling averages\<close>

lemma foldl_add: "foldl (\<lambda>acc v. acc + v) a xs = a + sum_list (xs :: int list)"
  by (induction xs arbitrary: a) simp_all

lemma slice_window:
  assumes "s \<le> i" "i < length xs"
  shows "map snd (js_slice xs s (i + 1)) = map (\<lambda>j. snd (xs ! j)) [s..<Suc i]"
proof -
  have "js_slice xs s (i + 1) = map (nth xs) [s..<Suc i]"
    using assms
    by (intro nth_equalityI) (simp_all add: js_slice_def del: upt_Suc)
  then show ?thesis by simp
qed

lemma rolling_body_eq:
  assumes "i < length dd" "1 \<le> w"
  shows "rolling_body w dd i =
     (fst (dd ! i),
      js_round (of_int (\<Sum>j = nat (max 0 (int i - w + 1))..i. snd (dd ! j))
                 / of_nat (Suc i - nat (max 0 (int i - w + 1)))))"
proof -
  let ?s = "nat (max 0 (int i - w + 1))"
  from assms have s: "?s \<le> i" by simp
  have win: "map snd (js_slice dd ?s (i + 1)) = map (\<lambda>j. snd (dd ! j)) [?s..<Suc i]"
    by (rule slice_window [OF s assms(1)])
  have total: "sum_list (map (\<lambda>j. snd (dd ! j)) [?s..<Suc i]) = (\<Sum>j = ?s..i. snd (dd ! j))"
    unfolding interv_sum_list_conv_sum_set_nat set_upt atLeastLessThanSuc_atLeastAtMost
    by (rule refl)
  have len: "length (map (\<lambda>j. snd (dd ! j)) [?s..<Suc i]) = Suc i - ?s"
    by (simp del: upt_Suc)
  from s have pos: "0 < Suc i - ?s" by simp
  show ?thesis
    unfolding rolling_body_def Let_def win foldl_add total len
    using pos by simp
qed

lemma rolling_iter_length: "length (rolling_iter w dd n) = n"
  by (induction n) simp_all

lemma rolling_iter_nth: "i < n \<Longrightarrow> rolling_iter w dd n ! i = rolling_body w dd i"
  by (induction n) (auto simp: nth_append rolling_iter_length less_Suc_eq)

text \<open>
  C5, in the form the script satisfies. For the windows of 7 and of 30 points, the
  rolling average at index \<open>i\<close> is the mean of the growth rates at the indices from
  \<open>max 0 (i - w + 1)\<close> to \<open>i\<close>, rounded to an integer. For a series of 10 points and
  the window of 7, the value at index 9 is the rounded mean of the indices 3 to 9, and at
  index 2 the rounded mean of the indices 0 to 2.
\<close>

theorem rolling_average_rounded:
  assumes "i < length dd"
  shows "length (rollingAverageData7Day dd) = length dd
     \<and> length (rollingAverageData30Day dd) = length dd
     \<and> rollingAverageData7Day dd ! i =
         (fst (dd ! i),
          js_round (of_int (\<Sum>j = nat (max 0 (int i - 7 + 1))..i. snd (dd ! j))
                     / of_nat (Suc i - nat (max 0 (int i - 7 + 1)))))
     \<and> rollingAverageData30Day dd ! i =
         (fst (dd ! i),
          js_round (of_int (\<Sum>j = nat (max 0 (int i - 30 + 1))..i. snd (dd ! j))
                     / of_nat (Suc i - nat (max 0 (int i - 30 + 1)))))
     \<and> (length dd = 10 \<longrightarrow>
          snd (rollingAverageData7Day dd ! 9) = js_round (of_int (\<Sum>j = 3..9. snd (dd ! j)) / 7)
          \<and> snd (rollingAverageData7Day dd ! 2) = js_round (of_int (\<Sum>j = 0..2. snd (dd ! j)) / 3))"
proof -
  have nine: "snd (rollingAverageData7Day dd ! 9) = js_round (of_int (\<Sum>j = 3..9. snd (dd ! j)) / 7)"
    and two: "snd (rollingAverageData7Day dd ! 2) = js_round (of_int (\<Sum>j = 0..2. snd (dd ! j)) / 3)"
    if "length dd = 10"
    using that rolling_body_eq [of 9 dd 7] rolling_body_eq [of 2 dd 7]
    by (simp_all add: rollingAverageData7Day_def rolling_iter_nth)
  with assms rolling_body_eq [of i dd 7] rolling_body_eq [of i dd 30] show ?thesis
    by (simp add: rollingAverageData7Day_def rollingAverageData30Day_def rolling_iter_nth
        rolling_iter_length)
qed

text \<open>
  The series 1, 2: the window at index 1 holds both.
\<close>

theorem rolling_average_rounded_witness:
  "rollingAverageData7Day ramp = [(0, 1), (1, 2)]
   \<and> rollingAverageData30Day ramp ! 1 = (1, 2)"
  using rolling_average_rounded [of 1 ramp] rolling_average_rounded [of 0 ramp]
  by (simp add: ramp_def js_round_def less_Suc_eq numeral_2_eq_2 list_eq_iff_nth_eq
      floor_rat_numeral)

text \<open>
  Against C5 as the specification words it (the value is the mean). For the rates 1
  and 2 the mean at index 1 is 3/2 and the script gives 2.
\<close>

theorem rolling_average_not_the_mean:
  "of_int (snd (rollingAverageData7Day ramp ! 1)) \<noteq> (of_int (snd (ramp ! 0) + snd (ramp ! 1)) / 2 :: rat)"
  by (simp add: ramp_def rollingAverageData7Day_def rolling_body_def js_slice_def js_round_def
      numeral_2_eq_2)

end
